theory Spec2Isabelle
  imports Main "HOL-Library.Multiset"
begin

section \<open>Data model\<close>

text \<open>
  A tab record as the host hands it to \<open>background.js\<close>. Only the fields the script
  reads are kept. Identifiers and positions are JavaScript numbers holding integers;
  \<open>lastAccessed\<close> is a timestamp in milliseconds.
\<close>

record tab =
  tab_id :: int
  tab_url :: string
  tab_title :: string
  tab_lastAccessed :: int
  tab_pinned :: bool
  tab_index :: int

text \<open>The only exception the script can meet synchronously is a \<open>TypeError\<close>.\<close>

datatype error = TypeError

type_synonym comparator = "tab \<Rightarrow> tab \<Rightarrow> error + int"

text \<open>
  What a property of \<open>menuIdToComparator\<close> can hold, and so what \<open>sortTabs\<close> can be
  handed as its comparison function: \<open>undefined\<close>, a function (given by what it
  returns or raises when the sort calls it on two tab records), or an object that
  cannot be called.
\<close>

datatype jsvalue = JsUndefined | JsFunction comparator | JsObject

text \<open>The argument of \<open>browser.tabs.move(movingIds, {index: ...})\<close>.\<close>

record MoveOp =
  movingIds :: "int list"
  moveIndex :: int

text \<open>One change object of the sequence diff: \<open>{value, added, removed}\<close>.\<close>

record change =
  chg_value :: "int list"
  chg_added :: bool
  chg_removed :: bool

text \<open>The stored settings, as \<open>initializeSettings\<close> returns them.\<close>

record settings =
  last_comparator :: "string option"
  settings_sort_auto :: bool
  settings_sort_pinned :: bool

text \<open>What a run of a handler does to the host, in order, and whether it threw.\<close>

datatype event = StorageGet | TabsQuery | TabsMove MoveOp | ConsoleCall string string

record outcome =
  events :: "event list"
  raised :: "error option"

section \<open>String and array primitives of the language\<close>

text \<open>\<open>s.split(".")\<close>: an empty string gives one empty piece.\<close>

fun split_str :: "char \<Rightarrow> string \<Rightarrow> string list" where
  "split_str sep [] = [[]]"
| "split_str sep (c # cs) =
     (if c = sep then [] # split_str sep cs
      else (case split_str sep cs of
              [] \<Rightarrow> [[c]]
            | w # ws \<Rightarrow> (c # w) # ws))"

text \<open>\<open>xs.slice(start)\<close>: a negative start counts from the end, both are clamped.\<close>

definition slice_js :: "int \<Rightarrow> 'a list \<Rightarrow> 'a list" where
  "slice_js start xs =
     (let n = int (length xs);
          k = (if start < 0 then max (n + start) 0 else min start n)
      in drop (nat k) xs)"

fun join_str :: "string \<Rightarrow> string list \<Rightarrow> string" where
  "join_str sep [] = []"
| "join_str sep [x] = x"
| "join_str sep (x # y # ys) = x @ sep @ join_str sep (y # ys)"

text \<open>\<open>xs.indexOf(x)\<close>: the first position, or \<open>-1\<close>.\<close>

fun indexOf :: "'a list \<Rightarrow> 'a \<Rightarrow> int" where
  "indexOf [] x = -1"
| "indexOf (y # ys) x =
     (if y = x then 0 else (let r = indexOf ys x in if r < 0 then -1 else r + 1))"

text \<open>
  Reading \<open>xs[0]\<close> or \<open>xs[xs.length - 1]\<close> of an empty array gives \<open>undefined\<close>
  (here \<open>None\<close>), which no array of identifiers contains.
\<close>

definition first_js :: "'a list \<Rightarrow> 'a option" where
  "first_js xs = (case xs of [] \<Rightarrow> None | x # _ \<Rightarrow> Some x)"

definition last_js :: "'a list \<Rightarrow> 'a option" where
  "last_js xs = (if xs = [] then None else Some (last xs))"

definition indexOfOpt :: "'a list \<Rightarrow> 'a option \<Rightarrow> int" where
  "indexOfOpt xs v = (case v of None \<Rightarrow> -1 | Some x \<Rightarrow> indexOf xs x)"

text \<open>\<open>xs.splice(start, 0, ...items)\<close>, returning the array after the insertion.\<close>

definition splice_insert :: "'a list \<Rightarrow> int \<Rightarrow> 'a list \<Rightarrow> 'a list" where
  "splice_insert xs start items =
     (let n = int (length xs);
          k = nat (if start < 0 then max (n + start) 0 else min start n)
      in take k xs @ items @ drop k xs)"

text \<open>Comparison of two strings by code units, as the default sort order does.\<close>

fun ordinalCompare :: "string \<Rightarrow> string \<Rightarrow> int" where
  "ordinalCompare [] [] = 0"
| "ordinalCompare [] (y # ys) = -1"
| "ordinalCompare (x # xs) [] = 1"
| "ordinalCompare (x # xs) (y # ys) =
     (if (of_char x :: nat) < of_char y then -1
      else if (of_char y :: nat) < of_char x then 1
      else ordinalCompare xs ys)"

section \<open>Comparison functions\<close>

text \<open>
  Two primitives of the host are parameters of the comparators:
  \<open>hostname u\<close> is \<open>new URL(u).hostname\<close>, with \<open>None\<close> when the constructor throws
  its \<open>TypeError\<close>, and \<open>lc s t\<close> is \<open>s.localeCompare(t)\<close>.
\<close>

definition compareByUrlAsc ::
  "(string \<Rightarrow> string option) \<Rightarrow> (string \<Rightarrow> string \<Rightarrow> int) \<Rightarrow> comparator" where
  "compareByUrlAsc hostname lc a b =
     (case hostname (tab_url a) of
        None \<Rightarrow> Inl TypeError
      | Some h1 \<Rightarrow>
          (case hostname (tab_url b) of
             None \<Rightarrow> Inl TypeError
           | Some h2 \<Rightarrow> Inr (lc h1 h2)))"

definition compareByUrlDesc ::
  "(string \<Rightarrow> string option) \<Rightarrow> (string \<Rightarrow> string \<Rightarrow> int) \<Rightarrow> comparator" where
  "compareByUrlDesc hostname lc a b =
     (case hostname (tab_url a) of
        None \<Rightarrow> Inl TypeError
      | Some h1 \<Rightarrow>
          (case hostname (tab_url b) of
             None \<Rightarrow> Inl TypeError
           | Some h2 \<Rightarrow> Inr (lc h2 h1)))"

text \<open>\<open>h.split(".").slice(-2).join(".")\<close>\<close>

definition domainOf :: "string \<Rightarrow> string" where
  "domainOf h = join_str ''.'' (slice_js (-2) (split_str (CHR ''.'') h))"

definition compareByDomainAsc ::
  "(string \<Rightarrow> string option) \<Rightarrow> (string \<Rightarrow> string \<Rightarrow> int) \<Rightarrow> comparator" where
  "compareByDomainAsc hostname lc a b =
     (case hostname (tab_url a) of
        None \<Rightarrow> Inl TypeError
      | Some h1 \<Rightarrow>
          (case hostname (tab_url b) of
             None \<Rightarrow> Inl TypeError
           | Some h2 \<Rightarrow> Inr (lc (domainOf h1) (domainOf h2))))"

definition compareByDomainDesc ::
  "(string \<Rightarrow> string option) \<Rightarrow> (string \<Rightarrow> string \<Rightarrow> int) \<Rightarrow> comparator" where
  "compareByDomainDesc hostname lc a b =
     (case hostname (tab_url a) of
        None \<Rightarrow> Inl TypeError
      | Some h1 \<Rightarrow>
          (case hostname (tab_url b) of
             None \<Rightarrow> Inl TypeError
           | Some h2 \<Rightarrow> Inr (lc (domainOf h2) (domainOf h1))))"

definition compareByTitleAsc :: "(string \<Rightarrow> string \<Rightarrow> int) \<Rightarrow> comparator" where
  "compareByTitleAsc lc a b = Inr (lc (tab_title a) (tab_title b))"

definition compareByTitleDesc :: "(string \<Rightarrow> string \<Rightarrow> int) \<Rightarrow> comparator" where
  "compareByTitleDesc lc a b = Inr (lc (tab_title b) (tab_title a))"

definition compareByLastAccessAsc :: comparator where
  "compareByLastAccessAsc a b =
     Inr (if tab_lastAccessed a < tab_lastAccessed b then -1
          else if tab_lastAccessed a > tab_lastAccessed b then 1
          else 0)"

definition compareByLastAccessDesc :: comparator where
  "compareByLastAccessDesc a b =
     Inr (if tab_lastAccessed b < tab_lastAccessed a then -1
          else if tab_lastAccessed b > tab_lastAccessed a then 1
          else 0)"

text \<open>
  The object literal \<open>menuIdToComparator\<close>, read as \<open>menuIdToComparator[k]\<close>: one of
  its eight own properties, or else what the prototype of every object literal,
  \<open>Object.prototype\<close>, holds under the key. The prototype is a parameter, \<open>proto\<close>.
\<close>

definition menuIdToComparator ::
  "(string \<Rightarrow> string option) \<Rightarrow> (string \<Rightarrow> string \<Rightarrow> int) \<Rightarrow> (string \<Rightarrow> jsvalue)
     \<Rightarrow> string \<Rightarrow> jsvalue" where
  "menuIdToComparator hostname lc proto k =
     (case map_of
             [(''sort-by-url-asc'', compareByUrlAsc hostname lc),
              (''sort-by-url-desc'', compareByUrlDesc hostname lc),
              (''sort-by-domain-asc'', compareByDomainAsc hostname lc),
              (''sort-by-domain-desc'', compareByDomainDesc hostname lc),
              (''sort-by-last-access-asc'', compareByLastAccessAsc),
              (''sort-by-last-access-desc'', compareByLastAccessDesc),
              (''sort-by-title-asc'', compareByTitleAsc lc),
              (''sort-by-title-desc'', compareByTitleDesc lc)] k of
        Some cmp \<Rightarrow> JsFunction cmp
      | None \<Rightarrow> proto k)"

text \<open>
  \<open>Object.prototype\<close> as the language standard has it, each function given by what it
  does when the sort calls it on two tab records with no receiver. \<open>constructor\<close>
  and \<open>toString\<close> return an object or a string that is no number, which the sort
  takes as zero; the other functions need a receiver and raise a \<open>TypeError\<close>;
  \<open>__proto__\<close> gives the prototype itself, an object that cannot be called. Any other
  key gives \<open>undefined\<close>.
\<close>

definition object_prototype :: "string \<Rightarrow> jsvalue" where
  "object_prototype k =
     (if k \<in> set [''constructor'', ''toString''] then JsFunction (\<lambda>a b. Inr 0)
      else if k \<in> set [''toLocaleString'', ''valueOf'', ''hasOwnProperty'', ''isPrototypeOf'',
                         ''propertyIsEnumerable'', ''__defineGetter__'', ''__defineSetter__'',
                         ''__lookupGetter__'', ''__lookupSetter__'']
           then JsFunction (\<lambda>a b. Inl TypeError)
      else if k = ''__proto__'' then JsObject
      else JsUndefined)"

section \<open>The array sort of the language\<close>

text \<open>
  \<open>Array.prototype.sort\<close> is stable and leaves the method to the engine. It is modelled by
  a stable insertion: an element goes in front of the first element it does not compare
  greater than, and an exception of the comparison function ends the sort at once.
\<close>

fun insert_js :: "comparator \<Rightarrow> tab \<Rightarrow> tab list \<Rightarrow> error + tab list" where
  "insert_js cmp x [] = Inr [x]"
| "insert_js cmp x (y # ys) =
     (case cmp x y of
        Inl e \<Rightarrow> Inl e
      | Inr r \<Rightarrow>
          if r \<le> 0 then Inr (x # y # ys)
          else (case insert_js cmp x ys of
                  Inl e \<Rightarrow> Inl e
                | Inr zs \<Rightarrow> Inr (y # zs)))"

fun sort_with :: "comparator \<Rightarrow> tab list \<Rightarrow> error + tab list" where
  "sort_with cmp [] = Inr []"
| "sort_with cmp (x # xs) =
     (case sort_with cmp xs of
        Inl e \<Rightarrow> Inl e
      | Inr ys \<Rightarrow> insert_js cmp x ys)"

text \<open>
  Without a comparison function the elements are ordered by their string conversions;
  a tab record is a plain object and converts to \<open>[object Object]\<close>.
\<close>

definition toString_tab :: "tab \<Rightarrow> string" where
  "toString_tab t = ''[object Object]''"

definition defaultCompare :: comparator where
  "defaultCompare a b = Inr (ordinalCompare (toString_tab a) (toString_tab b))"

text \<open>
  The comparison the sort uses: the default one when it is handed \<open>undefined\<close>. Handed
  anything else that cannot be called, the sort raises a \<open>TypeError\<close> before it
  looks at the array.
\<close>

definition sortCompare :: "jsvalue \<Rightarrow> comparator" where
  "sortCompare comparator =
     (case comparator of
        JsFunction cmp \<Rightarrow> cmp
      | _ \<Rightarrow> defaultCompare)"

definition sort_js :: "jsvalue \<Rightarrow> tab list \<Rightarrow> error + tab list" where
  "sort_js comparator xs =
     (case comparator of
        JsObject \<Rightarrow> Inl TypeError
      | _ \<Rightarrow> sort_with (sortCompare comparator) xs)"

section \<open>The sequence diff\<close>

text \<open>
  Modelled from the spec: \<open>differ.diff\<close>, the sequence diff the script calls, is not part
  of the source. The spec describes it as a longest-common-subsequence-based diff whose
  script lists, from left to right, the common runs, the removed runs and the inserted
  runs. \<open>edit_script\<close> says that a script is such a list for two sequences, and
  \<open>lcs_script\<close> that its common part is as long as a longest common subsequence.
  The engine below takes the diff as a parameter.
\<close>

fun lcs_length :: "'a list \<Rightarrow> 'a list \<Rightarrow> nat" where
  "lcs_length [] ys = 0"
| "lcs_length (x # xs) [] = 0"
| "lcs_length (x # xs) (y # ys) =
     (if x = y then Suc (lcs_length xs ys)
      else max (lcs_length xs (y # ys)) (lcs_length (x # xs) ys))"

definition kept_values :: "(change \<Rightarrow> bool) \<Rightarrow> change list \<Rightarrow> int list" where
  "kept_values P script = concat (map chg_value (filter P script))"

definition edit_script :: "int list \<Rightarrow> int list \<Rightarrow> change list \<Rightarrow> bool" where
  "edit_script before after script \<longleftrightarrow>
     list_all (\<lambda>c. chg_value c \<noteq> [] \<and> \<not> (chg_added c \<and> chg_removed c)) script \<and>
     kept_values (\<lambda>c. \<not> chg_added c) script = before \<and>
     kept_values (\<lambda>c. \<not> chg_removed c) script = after"

definition lcs_script :: "int list \<Rightarrow> int list \<Rightarrow> change list \<Rightarrow> bool" where
  "lcs_script before after script \<longleftrightarrow>
     edit_script before after script \<and>
     length (kept_values (\<lambda>c. \<not> chg_added c \<and> \<not> chg_removed c) script)
       = lcs_length before after"

text \<open>
  Modelled from the spec: one diff of this kind, used to run the engine on concrete
  inputs. Where both sequences start with the same identifier it is kept; otherwise the
  step that loses nothing of the longest common subsequence is taken, a removal first.
  Neighbouring changes of one kind are then merged into maximal runs.
\<close>

fun lcs_edits :: "int list \<Rightarrow> int list \<Rightarrow> change list" where
  "lcs_edits [] ys =
     map (\<lambda>y. \<lparr>chg_value = [y], chg_added = True, chg_removed = False\<rparr>) ys"
| "lcs_edits (x # xs) [] =
     map (\<lambda>z. \<lparr>chg_value = [z], chg_added = False, chg_removed = True\<rparr>) (x # xs)"
| "lcs_edits (x # xs) (y # ys) =
     (if x = y then
        \<lparr>chg_value = [x], chg_added = False, chg_removed = False\<rparr> # lcs_edits xs ys
      else if lcs_length (x # xs) ys \<le> lcs_length xs (y # ys) then
        \<lparr>chg_value = [x], chg_added = False, chg_removed = True\<rparr> # lcs_edits xs (y # ys)
      else
        \<lparr>chg_value = [y], chg_added = True, chg_removed = False\<rparr> # lcs_edits (x # xs) ys)"

fun merge_runs :: "change list \<Rightarrow> change list" where
  "merge_runs [] = []"
| "merge_runs [c] = [c]"
| "merge_runs (c # d # ds) =
     (if chg_added c = chg_added d \<and> chg_removed c = chg_removed d
      then merge_runs (c\<lparr>chg_value := chg_value c @ chg_value d\<rparr> # ds)
      else c # merge_runs (d # ds))"

definition lcs_diff :: "int list \<Rightarrow> int list \<Rightarrow> change list" where
  "lcs_diff before after = merge_runs (lcs_edits before after)"

section \<open>Tab sorting functions\<close>

text \<open>
  The body of the loop of \<open>sortTabsInternal\<close> for one added change: the move it asks of
  the host and the working copy \<open>currentIds\<close> after it.
\<close>

definition moveStep ::
  "int list \<Rightarrow> int list \<Rightarrow> int \<Rightarrow> int list \<Rightarrow> int list \<Rightarrow> MoveOp \<times> int list" where
  "moveStep beforeIds afterIds offset currentIds moving =
     (let lastMovingId = last_js moving;
          nearestFollowingIndex = indexOfOpt afterIds lastMovingId + 1;
          newIndex0 =
            (if nearestFollowingIndex < int (length afterIds)
             then indexOf currentIds (afterIds ! nat nearestFollowingIndex)
             else -1);
          newIndex1 = (if newIndex0 < 0 then int (length beforeIds) else newIndex0);
          oldIndex = indexOfOpt currentIds (first_js moving);
          newIndex = (if oldIndex < newIndex1 then newIndex1 - 1 else newIndex1);
          filtered = filter (\<lambda>i. i \<notin> set moving) currentIds
      in (\<lparr>movingIds = moving, moveIndex = newIndex + offset\<rparr>,
          splice_insert filtered newIndex moving))"

fun moveLoop ::
  "int list \<Rightarrow> int list \<Rightarrow> int \<Rightarrow> change list \<Rightarrow> int list \<Rightarrow> MoveOp list \<times> int list" where
  "moveLoop beforeIds afterIds offset [] currentIds = ([], currentIds)"
| "moveLoop beforeIds afterIds offset (d # ds) currentIds =
     (if \<not> chg_added d then moveLoop beforeIds afterIds offset ds currentIds
      else
        (let (mv, currentIds') = moveStep beforeIds afterIds offset currentIds (chg_value d);
             (mvs, final) = moveLoop beforeIds afterIds offset ds currentIds'
         in (mv # mvs, final)))"

text \<open>
  \<open>sortTabsInternal\<close> gives the moves it asked for, in order, and the last value of its
  working copy \<open>currentIds\<close>; an exception of the sort leaves before any move.
\<close>

definition sortTabsInternal ::
  "(int list \<Rightarrow> int list \<Rightarrow> change list) \<Rightarrow> tab list \<Rightarrow> jsvalue
     \<Rightarrow> error + (MoveOp list \<times> int list)" where
  "sortTabsInternal differ tabs comparator =
     (if tabs = [] then Inr ([], [])
      else
        (let offset = tab_index (hd tabs);
             beforeIds = map tab_id tabs
         in case sort_js comparator tabs of
              Inl e \<Rightarrow> Inl e
            | Inr sortedTabs \<Rightarrow>
                (let afterIds = map tab_id sortedTabs
                 in Inr (moveLoop beforeIds afterIds offset
                           (differ beforeIds afterIds) beforeIds))))"

text \<open>\<open>sortTabs\<close>, run on the tabs the query of the current window returns.\<close>

definition sortTabs ::
  "(int list \<Rightarrow> int list \<Rightarrow> change list) \<Rightarrow> jsvalue \<Rightarrow> settings \<Rightarrow> tab list
     \<Rightarrow> outcome" where
  "sortTabs differ comparator st tabs =
     (let pinnedTabs = filter tab_pinned tabs;
          normalTabs = filter (\<lambda>t. \<not> tab_pinned t) tabs
      in case (if settings_sort_pinned st
               then sortTabsInternal differ pinnedTabs comparator
               else Inr ([], [])) of
           Inl e \<Rightarrow> \<lparr>events = [TabsQuery], raised = Some e\<rparr>
         | Inr (mvs1, _) \<Rightarrow>
             (case sortTabsInternal differ normalTabs comparator of
                Inl e \<Rightarrow> \<lparr>events = TabsQuery # map TabsMove mvs1, raised = Some e\<rparr>
              | Inr (mvs2, _) \<Rightarrow>
                  \<lparr>events = TabsQuery # map TabsMove (mvs1 @ mvs2), raised = None\<rparr>))"

definition sortTabsComparatorName ::
  "(string \<Rightarrow> string option) \<Rightarrow> (string \<Rightarrow> string \<Rightarrow> int) \<Rightarrow> (string \<Rightarrow> jsvalue)
     \<Rightarrow> (int list \<Rightarrow> int list \<Rightarrow> change list) \<Rightarrow> string \<Rightarrow> settings \<Rightarrow> tab list
     \<Rightarrow> outcome" where
  "sortTabsComparatorName hostname lc proto differ compName st tabs =
     sortTabs differ (menuIdToComparator hostname lc proto compName) st tabs"

text \<open>
  The host's \<open>console\<close> object is given by the names of the methods it has. Calling a
  property that is not a function throws a \<open>TypeError\<close>.
\<close>

definition console_call :: "string list \<Rightarrow> string \<Rightarrow> string \<Rightarrow> error + event" where
  "console_call console method msg =
     (if method \<in> set console then Inr (ConsoleCall method msg) else Inl TypeError)"

text \<open>The methods of the console of the Console standard that browsers implement.\<close>

definition standard_console :: "string list" where
  "standard_console =
     [''assert'', ''clear'', ''count'', ''countReset'', ''debug'', ''dir'', ''dirxml'',
      ''error'', ''group'', ''groupCollapsed'', ''groupEnd'', ''info'', ''log'', ''table'',
      ''time'', ''timeEnd'', ''timeLog'', ''trace'', ''warn'']"

text \<open>
  The key a stored \<open>last-comparator\<close> is looked up with: a setting that was never
  stored is \<open>undefined\<close>, and as a property key that is the string \<open>undefined\<close>.
\<close>

definition stored_key :: "settings \<Rightarrow> string" where
  "stored_key st = (case last_comparator st of None \<Rightarrow> ''undefined'' | Some k \<Rightarrow> k)"

text \<open>
  \<open>settingsSortAutoHandler\<close>, run on the stored settings the storage returns. The callback
  is the first argument of \<open>then\<close>, so what it throws is not passed to \<open>onError\<close>, the
  second argument: it rejects the promise.
\<close>

definition settingsSortAutoHandler ::
  "string list \<Rightarrow> (string \<Rightarrow> string option) \<Rightarrow> (string \<Rightarrow> string \<Rightarrow> int)
     \<Rightarrow> (string \<Rightarrow> jsvalue) \<Rightarrow> (int list \<Rightarrow> int list \<Rightarrow> change list) \<Rightarrow> settings
     \<Rightarrow> tab list \<Rightarrow> outcome" where
  "settingsSortAutoHandler console hostname lc proto differ st tabs =
     (case menuIdToComparator hostname lc proto (stored_key st) of
        JsUndefined \<Rightarrow>
          (case console_call console ''warning''
                  ''Tried to automatically sort tabs but couldn't find the last-comparator. Doing nothing instead.'' of
             Inl e \<Rightarrow> \<lparr>events = [StorageGet], raised = Some e\<rparr>
           | Inr ev \<Rightarrow> \<lparr>events = [StorageGet, ev], raised = None\<rparr>)
      | found \<Rightarrow>
          (let r = sortTabs differ found st tabs
           in r\<lparr>events := StorageGet # events r\<rparr>))"

section \<open>The engine as the specification words it\<close>

text \<open>
  A second reading of the loop, written from the specification and not from the script,
  to compare the two. A position is a natural number and exists only for an element of
  the sequence; where the specification says nothing (an empty run, an identifier that
  is not in the sequence) the result is \<open>None\<close>.
\<close>

definition position_of :: "'a list \<Rightarrow> 'a \<Rightarrow> nat option" where
  "position_of xs x =
     (if x \<in> set xs then Some (length (takeWhile (\<lambda>y. y \<noteq> x) xs)) else None)"

text \<open>
  Steps b to d: the anchor is the element after the last moving identifier in the target
  order; the destination is the anchor's position in the working copy, or the length of
  the original order when there is no anchor; it is one less when the first moving
  identifier stands in front of it.
\<close>

definition spec_destination :: "int list \<Rightarrow> int list \<Rightarrow> int list \<Rightarrow> int list \<Rightarrow> nat option" where
  "spec_destination beforeIds afterIds currentIds moving =
     (if moving = [] then None
      else
        (case position_of afterIds (last moving) of
           None \<Rightarrow> None
         | Some p \<Rightarrow>
             (case (if Suc p < length afterIds
                    then position_of currentIds (afterIds ! Suc p)
                    else Some (length beforeIds)) of
                None \<Rightarrow> None
              | Some d \<Rightarrow>
                  (case position_of currentIds (hd moving) of
                     None \<Rightarrow> None
                   | Some q \<Rightarrow> Some (if q < d then d - 1 else d)))))"

text \<open>Step e: the moving identifiers leave their places and are put in at the destination.\<close>

definition spec_update :: "int list \<Rightarrow> int list \<Rightarrow> nat \<Rightarrow> int list" where
  "spec_update currentIds moving d =
     (let rest = filter (\<lambda>i. i \<notin> set moving) currentIds
      in take d rest @ moving @ drop d rest)"

fun spec_moveLoop ::
  "int list \<Rightarrow> int list \<Rightarrow> int \<Rightarrow> change list \<Rightarrow> int list \<Rightarrow> (MoveOp list \<times> int list) option" where
  "spec_moveLoop beforeIds afterIds offset [] currentIds = Some ([], currentIds)"
| "spec_moveLoop beforeIds afterIds offset (d # ds) currentIds =
     (if chg_added d then
        (case spec_destination beforeIds afterIds currentIds (chg_value d) of
           None \<Rightarrow> None
         | Some k \<Rightarrow>
             (case spec_moveLoop beforeIds afterIds offset ds
                     (spec_update currentIds (chg_value d) k) of
                None \<Rightarrow> None
              | Some (mvs, final) \<Rightarrow>
                  Some (\<lparr>movingIds = chg_value d, moveIndex = int k + offset\<rparr> # mvs, final)))
      else spec_moveLoop beforeIds afterIds offset ds currentIds)"

text \<open>
  What the loop needs of a script: an inserted run is not empty, repeats no identifier
  and holds identifiers of the target order only.
\<close>

definition added_runs_ok :: "int list \<Rightarrow> change list \<Rightarrow> bool" where
  "added_runs_ok afterIds script \<longleftrightarrow>
     list_all (\<lambda>d. chg_added d \<longrightarrow>
                 chg_value d \<noteq> [] \<and> distinct (chg_value d) \<and> set (chg_value d) \<subseteq> set afterIds)
       script"

text \<open>The whole of \<open>reorder\<close> for one partition, steps 1 to 5.\<close>

definition spec_reorder ::
  "(int list \<Rightarrow> int list \<Rightarrow> change list) \<Rightarrow> tab list \<Rightarrow> jsvalue
     \<Rightarrow> (error + (MoveOp list \<times> int list)) option" where
  "spec_reorder differ tabs comparator =
     (if tabs = [] then Some (Inr ([], []))
      else
        (case sort_js comparator tabs of
           Inl e \<Rightarrow> Some (Inl e)
         | Inr s \<Rightarrow>
             map_option Inr
               (spec_moveLoop (map tab_id tabs) (map tab_id s) (tab_index (hd tabs))
                  (differ (map tab_id tabs) (map tab_id s)) (map tab_id tabs))))"

section \<open>Notions used to state the properties\<close>

text \<open>
  The script the diff returns for a partition is an edit script between the order before
  and the sorted order (nothing is asked when the sort raises).
\<close>

definition diff_ok ::
  "(int list \<Rightarrow> int list \<Rightarrow> change list) \<Rightarrow> jsvalue \<Rightarrow> tab list \<Rightarrow> bool" where
  "diff_ok differ comparator tabs =
     (case sort_js comparator tabs of
        Inl e \<Rightarrow> True
      | Inr s \<Rightarrow>
          edit_script (map tab_id tabs) (map tab_id s)
            (differ (map tab_id tabs) (map tab_id s)))"

text \<open>The moves among the events of a run.\<close>

fun moves_of :: "event list \<Rightarrow> MoveOp list" where
  "moves_of [] = []"
| "moves_of (TabsMove mv # es) = mv # moves_of es"
| "moves_of (e # es) = moves_of es"

text \<open>
  A move stays in a partition: it names identifiers of the partition only and its index
  is one of the \<open>n\<close> positions from \<open>offset\<close> on.
\<close>

definition move_in_range :: "int list \<Rightarrow> int \<Rightarrow> nat \<Rightarrow> MoveOp \<Rightarrow> bool" where
  "move_in_range ids offset n mv \<longleftrightarrow>
     set (movingIds mv) \<subseteq> set ids \<and> offset \<le> moveIndex mv \<and> moveIndex mv < offset + int n"

text \<open>
  Neighbours are in order for a comparison function: it returns a number that is not
  positive.
\<close>

fun sorted_by :: "comparator \<Rightarrow> tab list \<Rightarrow> bool" where
  "sorted_by cmp [] = True"
| "sorted_by cmp [x] = True"
| "sorted_by cmp (x # y # ys) =
     ((case cmp x y of Inl e \<Rightarrow> False | Inr r \<Rightarrow> r \<le> 0) \<and> sorted_by cmp (y # ys))"

text \<open>
  The comparison function does not contradict itself on the records of a list: where it
  puts \<open>x\<close> after \<open>y\<close>, it does not put \<open>y\<close> after \<open>x\<close>.
\<close>

definition consistent_on :: "comparator \<Rightarrow> tab list \<Rightarrow> bool" where
  "consistent_on cmp xs \<longleftrightarrow>
     list_all (\<lambda>x. list_all (\<lambda>y.
        (case cmp x y of
           Inl e \<Rightarrow> True
         | Inr r \<Rightarrow> 0 < r \<longrightarrow> (case cmp y x of Inl e \<Rightarrow> False | Inr r' \<Rightarrow> r' \<le> 0))) xs) xs"

text \<open>Some \<open>a\<close> stands in front of some \<open>b\<close> in a list.\<close>

fun precedes :: "'a \<Rightarrow> 'a \<Rightarrow> 'a list \<Rightarrow> bool" where
  "precedes a b [] = False"
| "precedes a b (x # xs) = ((x = a \<and> b \<in> set xs) \<or> precedes a b xs)"

text \<open>
  The records of a partition that stands in the given order from position \<open>k\<close> on: only
  the \<open>index\<close> of a record depends on where its tab stands.
\<close>

fun reindex :: "int \<Rightarrow> tab list \<Rightarrow> tab list" where
  "reindex k [] = []"
| "reindex k (t # ts) = t\<lparr>tab_index := k\<rparr> # reindex (k + 1) ts"


text \<open>The last two labels of a host name given by its labels.\<close>

definition last_two_labels :: "string list \<Rightarrow> string list" where
  "last_two_labels labels = drop (length labels - 2) labels"

section \<open>Concrete inputs\<close>

text \<open>
  A small stand-in for the URL parser of the host, for concrete inputs: the host name is
  the text between \<open>://\<close> and the next \<open>/\<close>; a string without \<open>://\<close>, or with
  nothing after it, does not parse.
\<close>

fun after_scheme :: "string \<Rightarrow> string option" where
  "after_scheme (a # b # c # rest) =
     (if [a, b, c] = ''://'' then Some rest else after_scheme (b # c # rest))"
| "after_scheme _ = None"

definition simple_hostname :: "string \<Rightarrow> string option" where
  "simple_hostname u =
     (case after_scheme u of
        None \<Rightarrow> None
      | Some rest \<Rightarrow>
          (let h = takeWhile (\<lambda>c. c \<noteq> CHR ''/'') rest
           in if h = [] then None else Some h))"

definition example_tab :: "int \<Rightarrow> string \<Rightarrow> string \<Rightarrow> int \<Rightarrow> bool \<Rightarrow> int \<Rightarrow> tab" where
  "example_tab i u t la p ix =
     \<lparr>tab_id = i, tab_url = u, tab_title = t, tab_lastAccessed = la,
      tab_pinned = p, tab_index = ix\<rparr>"

definition access_tabs :: "tab list" where
  "access_tabs =
     [example_tab 1 ''https://a.example.com/'' ''a'' 40 False 0,
      example_tab 2 ''https://b.example.com/'' ''b'' 50 False 1,
      example_tab 3 ''https://c.example.com/'' ''c'' 10 False 2,
      example_tab 4 ''https://d.example.com/'' ''d'' 20 False 3,
      example_tab 5 ''https://e.example.com/'' ''e'' 30 False 4,
      example_tab 6 ''https://f.example.com/'' ''f'' 60 False 5]"

definition pinned_strip :: "tab list" where
  "pinned_strip =
     [example_tab 10 ''https://mail.example.com/'' ''Mail'' 5 True 0,
      example_tab 11 ''https://chat.example.com/'' ''Chat'' 6 True 1,
      example_tab 1 ''https://a.example.com/'' ''alpha'' 1 False 2,
      example_tab 2 ''https://b.example.com/'' ''beta'' 2 False 3,
      example_tab 3 ''https://c.example.com/'' ''gamma'' 3 False 4]"

definition unpinned_only :: settings where
  "unpinned_only =
     \<lparr>last_comparator = None, settings_sort_auto = False, settings_sort_pinned = False\<rparr>"

definition ordered_tabs :: "tab list" where
  "ordered_tabs =
     [example_tab 3 ''https://c.example.com/'' ''c'' 10 False 0,
      example_tab 1 ''https://a.example.com/'' ''a'' 20 False 1,
      example_tab 2 ''https://b.example.com/'' ''b'' 30 False 2]"

definition same_title_tabs :: "tab list" where
  "same_title_tabs =
     [example_tab 7 ''https://x.example.com/'' ''News'' 3 False 0,
      example_tab 8 ''https://y.example.com/'' ''News'' 2 False 1,
      example_tab 9 ''https://z.example.com/'' ''News'' 1 False 2]"

definition unparseable_tab :: tab where
  "unparseable_tab = example_tab 7 ''not a url'' ''Draft'' 1 False 0"

definition uk_tab :: tab where
  "uk_tab = example_tab 1 ''https://a.example.co.uk/'' ''Draft'' 1 False 0"

definition com_tab :: tab where
  "com_tab = example_tab 2 ''https://b.example.com/x'' ''Draft'' 1 False 1"

definition swapped_tabs :: "tab list" where
  "swapped_tabs =
     [example_tab 1 ''https://a.example.com/'' ''a'' 20 False 0,
      example_tab 2 ''https://b.example.com/'' ''b'' 10 False 1,
      example_tab 3 ''https://c.example.com/'' ''c'' 30 False 2,
      example_tab 4 ''https://d.example.com/'' ''d'' 50 False 3,
      example_tab 5 ''https://e.example.com/'' ''e'' 40 False 4]"

definition mixed_title_tabs :: "tab list" where
  "mixed_title_tabs =
     [example_tab 1 ''https://x.example.com/'' ''b'' 3 False 0,
      example_tab 2 ''https://y.example.com/'' ''a'' 2 False 1,
      example_tab 3 ''https://z.example.com/'' ''b'' 1 False 2]"

section \<open>Array primitives\<close>

lemma indexOf_present: "x \<in> set xs \<Longrightarrow> 0 \<le> indexOf xs x"
  by (induction xs) (auto simp: Let_def)

lemma indexOf_takeWhile:
  "x \<in> set xs \<Longrightarrow> indexOf xs x = int (length (takeWhile (\<lambda>y. y \<noteq> x) xs))"
proof (induction xs)
  case Nil
  then show ?case by simp
next
  case (Cons y ys)
  show ?case
  proof (cases "y = x")
    case True
    then show ?thesis by simp
  next
    case False
    with Cons.prems have in_ys: "x \<in> set ys" by simp
    from indexOf_present [OF in_ys] False Cons.IH [OF in_ys] show ?thesis
      by (simp add: Let_def)
  qed
qed

lemma length_takeWhile_neq: "x \<in> set xs \<Longrightarrow> length (takeWhile (\<lambda>y. y \<noteq> x) xs) < length xs"
  by (induction xs) auto

lemma distinct_insert_at:
  assumes "distinct xs" "distinct items" "set xs \<inter> set items = {}"
  shows "distinct (take n xs @ items @ drop n xs)"
proof -
  have apart: "set (take n xs) \<inter> set (drop n xs) = {}"
    using assms(1) by (metis append_take_drop_id distinct_append)
  have sub: "set (take n xs) \<subseteq> set xs" "set (drop n xs) \<subseteq> set xs"
    by (rule set_take_subset, rule set_drop_subset)
  from assms(1) have parts: "distinct (take n xs)" "distinct (drop n xs)"
    by simp_all
  from apart sub parts assms(2,3) show ?thesis
    by (simp only: distinct_append set_append) blast
qed

lemma splice_insert_nat:
  "splice_insert xs (int k) items = take k xs @ items @ drop k xs"
proof -
  have "nat (min (int k) (int (length xs))) = min k (length xs)" by simp
  then show ?thesis
    by (cases "k \<le> length xs") (simp_all add: splice_insert_def Let_def min_def)
qed

lemma indexOf_position:
  "position_of xs x = Some p \<Longrightarrow> indexOf xs x = int p"
  by (auto simp: position_of_def indexOf_takeWhile split: if_splits)

lemma position_of_Some: "x \<in> set xs \<Longrightarrow> \<exists>p. position_of xs x = Some p \<and> p < length xs"
  by (simp add: position_of_def length_takeWhile_neq)

lemma position_of_less: "position_of xs x = Some p \<Longrightarrow> p < length xs"
  by (auto simp: position_of_def length_takeWhile_neq split: if_splits)

lemma length_eq_of_distinct_set:
  "distinct xs \<Longrightarrow> distinct ys \<Longrightarrow> set xs = set ys \<Longrightarrow> length xs = length ys"
  by (metis distinct_card)

section \<open>One move of the loop\<close>

text \<open>
  While the working copy holds the identifiers of the target order, one pass through the
  body of the loop computes the destination the specification describes and updates
  the working copy as it says.
\<close>

lemma moveStep_refines:
  assumes cur: "set currentIds = set afterIds"
    and ne: "moving \<noteq> []"
    and sub: "set moving \<subseteq> set afterIds"
  shows "\<exists>k. spec_destination beforeIds afterIds currentIds moving = Some k \<and>
             moveStep beforeIds afterIds offset currentIds moving =
               (\<lparr>movingIds = moving, moveIndex = int k + offset\<rparr>,
                spec_update currentIds moving k)"
proof -
  from ne have "last moving \<in> set moving" by (rule last_in_set)
  with sub have last_in: "last moving \<in> set afterIds" by (rule subsetD)
  from position_of_Some [OF last_in]
  obtain p where p: "position_of afterIds (last moving) = Some p" "p < length afterIds"
    by (elim exE conjE)
  from ne have "hd moving \<in> set moving" by (rule hd_in_set)
  with sub have "hd moving \<in> set afterIds" by (rule subsetD)
  with cur have hd_in: "hd moving \<in> set currentIds" by simp
  from position_of_Some [OF hd_in]
  obtain q where q: "position_of currentIds (hd moving) = Some q" "q < length currentIds"
    by (elim exE conjE)
  have first: "first_js moving = Some (hd moving)"
    using ne by (cases moving) (simp_all add: first_js_def)
  have lastj: "last_js moving = Some (last moving)"
    using ne by (simp add: last_js_def)
  have nfi: "indexOfOpt afterIds (last_js moving) + 1 = int (Suc p)"
    using p(1) by (simp add: lastj indexOfOpt_def indexOf_position)
  have old: "indexOfOpt currentIds (first_js moving) = int q"
    using q(1) by (simp add: first indexOfOpt_def indexOf_position)
  have step: "moveStep beforeIds afterIds offset currentIds moving =
               (\<lparr>movingIds = moving, moveIndex = int k + offset\<rparr>,
                spec_update currentIds moving k)"
    if n1: "(let n0 = (if int (Suc p) < int (length afterIds)
                       then indexOf currentIds (afterIds ! nat (int (Suc p))) else -1)
             in if n0 < 0 then int (length beforeIds) else n0) = int d"
      and k: "k = (if q < d then d - 1 else d)" for d k
  proof -
    have ik: "(if int q < int d then int d - 1 else int d) = int k"
      unfolding k by (cases "q < d") simp_all
    have "moveStep beforeIds afterIds offset currentIds moving =
            (\<lparr>movingIds = moving,
              moveIndex = (if int q < int d then int d - 1 else int d) + offset\<rparr>,
             splice_insert (filter (\<lambda>i. i \<notin> set moving) currentIds)
               (if int q < int d then int d - 1 else int d) moving)"
      unfolding moveStep_def Let_def nfi old n1 [unfolded Let_def] ..
    then show ?thesis
      unfolding ik splice_insert_nat spec_update_def Let_def .
  qed
  show ?thesis
  proof (cases "Suc p < length afterIds")
    case True
    then have anchor_in: "afterIds ! Suc p \<in> set currentIds" using cur by simp
    from position_of_Some [OF anchor_in]
    obtain d where d: "position_of currentIds (afterIds ! Suc p) = Some d"
      by (elim exE conjE)
    have ix: "indexOf currentIds (afterIds ! Suc p) = int d"
      using d by (rule indexOf_position)
    have spec: "spec_destination beforeIds afterIds currentIds moving
                  = Some (if q < d then d - 1 else d)"
      using ne p(1) q(1) d True by (simp add: spec_destination_def)
    have n1: "(let n0 = (if int (Suc p) < int (length afterIds)
                       then indexOf currentIds (afterIds ! nat (int (Suc p))) else -1)
             in if n0 < 0 then int (length beforeIds) else n0) = int d"
      using True ix by (simp add: Let_def del: of_nat_Suc)
    from spec step [OF n1 refl] show ?thesis by blast
  next
    case False
    have spec: "spec_destination beforeIds afterIds currentIds moving
                  = Some (if q < length beforeIds then length beforeIds - 1 else length beforeIds)"
      using ne p(1) q(1) False by (simp add: spec_destination_def)
    have n1: "(let n0 = (if int (Suc p) < int (length afterIds)
                       then indexOf currentIds (afterIds ! nat (int (Suc p))) else -1)
             in if n0 < 0 then int (length beforeIds) else n0) = int (length beforeIds)"
      using False by (simp add: Let_def del: of_nat_Suc)
    from spec step [OF n1 refl] show ?thesis by blast
  qed
qed

lemma set_spec_update:
  "set moving \<subseteq> set currentIds \<Longrightarrow> set (spec_update currentIds moving k) = set currentIds"
proof -
  assume sub: "set moving \<subseteq> set currentIds"
  let ?rest = "filter (\<lambda>i. i \<notin> set moving) currentIds"
  have "set (take k ?rest) \<union> set (drop k ?rest) = set ?rest"
    by (metis append_take_drop_id set_append)
  then have "set (spec_update currentIds moving k) = set ?rest \<union> set moving"
    by (auto simp: spec_update_def Let_def)
  with sub show ?thesis by auto
qed

lemma distinct_spec_update:
  assumes "distinct currentIds" "distinct moving"
  shows "distinct (spec_update currentIds moving k)"
  unfolding spec_update_def Let_def
proof (rule distinct_insert_at)
  show "distinct (filter (\<lambda>i. i \<notin> set moving) currentIds)"
    using assms(1) by simp
  show "distinct moving" by (rule assms(2))
  show "set (filter (\<lambda>i. i \<notin> set moving) currentIds) \<inter> set moving = {}"
    by auto
qed

lemma spec_destination_range:
  assumes "spec_destination beforeIds afterIds currentIds moving = Some k"
    and "length currentIds = length beforeIds"
  shows "k < length beforeIds"
proof -
  from assms(1) have ne: "moving \<noteq> []"
    by (cases "moving = []") (simp_all add: spec_destination_def)
  from assms(1) ne obtain p where p: "position_of afterIds (last moving) = Some p"
    by (cases "position_of afterIds (last moving)") (simp_all add: spec_destination_def)
  define D where "D = (if Suc p < length afterIds
                       then position_of currentIds (afterIds ! Suc p)
                       else Some (length beforeIds))"
  from assms(1) ne p obtain d where d: "D = Some d"
    by (cases D) (simp_all add: spec_destination_def D_def)
  from assms(1) ne p d obtain q where q: "position_of currentIds (hd moving) = Some q"
    by (cases "position_of currentIds (hd moving)")
       (simp_all add: spec_destination_def D_def)
  from assms(1) ne p d q have k: "k = (if q < d then d - 1 else d)"
    by (simp add: spec_destination_def D_def)
  have "d \<le> length beforeIds"
  proof (cases "Suc p < length afterIds")
    case True
    with d have "position_of currentIds (afterIds ! Suc p) = Some d"
      by (simp add: D_def)
    from position_of_less [OF this] assms(2) show ?thesis by simp
  next
    case False
    with d show ?thesis by (simp add: D_def)
  qed
  moreover from position_of_less [OF q] assms(2) have "q < length beforeIds" by simp
  ultimately show ?thesis using k by (auto split: if_splits)
qed

section \<open>The loop\<close>

lemma moveLoop_refines:
  assumes "added_runs_ok afterIds ds" "set currentIds = set afterIds"
  shows "spec_moveLoop beforeIds afterIds offset ds currentIds
           = Some (moveLoop beforeIds afterIds offset ds currentIds)"
  using assms
proof (induction ds arbitrary: currentIds)
  case Nil
  then show ?case by simp
next
  case (Cons d ds)
  from Cons.prems(1) have rest: "added_runs_ok afterIds ds"
    by (simp add: added_runs_ok_def)
  show ?case
  proof (cases "chg_added d")
    case False
    with Cons.IH [OF rest Cons.prems(2)] show ?thesis by simp
  next
    case True
    with Cons.prems(1) have ne: "chg_value d \<noteq> []"
      and sub: "set (chg_value d) \<subseteq> set afterIds"
      by (simp_all add: added_runs_ok_def)
    from moveStep_refines [OF Cons.prems(2) ne sub, of beforeIds offset]
    obtain k where k: "spec_destination beforeIds afterIds currentIds (chg_value d) = Some k"
      and st: "moveStep beforeIds afterIds offset currentIds (chg_value d) =
                 (\<lparr>movingIds = chg_value d, moveIndex = int k + offset\<rparr>,
                  spec_update currentIds (chg_value d) k)"
      by (elim exE conjE)
    from sub Cons.prems(2) have "set (chg_value d) \<subseteq> set currentIds" by simp
    then have "set (spec_update currentIds (chg_value d) k) = set afterIds"
      using Cons.prems(2) by (simp add: set_spec_update)
    from Cons.IH [OF rest this] True k st show ?thesis
      by (simp add: split_def Let_def)
  qed
qed

text \<open>
  The loop keeps the working copy a rearrangement of the target order, and every move
  it asks for stays in the partition.
\<close>

lemma moveLoop_invariant:
  assumes "added_runs_ok afterIds ds" "set currentIds = set afterIds"
    "distinct currentIds" "length currentIds = length beforeIds"
  shows "list_all (move_in_range afterIds offset (length beforeIds))
           (fst (moveLoop beforeIds afterIds offset ds currentIds)) \<and>
         set (snd (moveLoop beforeIds afterIds offset ds currentIds)) = set afterIds \<and>
         distinct (snd (moveLoop beforeIds afterIds offset ds currentIds))"
  using assms
proof (induction ds arbitrary: currentIds)
  case Nil
  then show ?case by simp
next
  case (Cons d ds)
  from Cons.prems(1) have rest: "added_runs_ok afterIds ds"
    by (simp add: added_runs_ok_def)
  show ?case
  proof (cases "chg_added d")
    case False
    with Cons.IH [OF rest Cons.prems(2,3,4)] show ?thesis by simp
  next
    case True
    with Cons.prems(1) have ne: "chg_value d \<noteq> []"
      and dist: "distinct (chg_value d)"
      and sub: "set (chg_value d) \<subseteq> set afterIds"
      by (simp_all add: added_runs_ok_def)
    from moveStep_refines [OF Cons.prems(2) ne sub, of beforeIds offset]
    obtain k where k: "spec_destination beforeIds afterIds currentIds (chg_value d) = Some k"
      and st: "moveStep beforeIds afterIds offset currentIds (chg_value d) =
                 (\<lparr>movingIds = chg_value d, moveIndex = int k + offset\<rparr>,
                  spec_update currentIds (chg_value d) k)"
      by (elim exE conjE)
    let ?next = "spec_update currentIds (chg_value d) k"
    from sub Cons.prems(2) have sub': "set (chg_value d) \<subseteq> set currentIds" by simp
    then have s: "set ?next = set afterIds"
      using Cons.prems(2) by (simp add: set_spec_update)
    have di: "distinct ?next"
      using Cons.prems(3) dist by (rule distinct_spec_update)
    from s Cons.prems(2) have "set ?next = set currentIds" by simp
    with di Cons.prems(3) have "length ?next = length currentIds"
      by (rule length_eq_of_distinct_set)
    with Cons.prems(4) have le: "length ?next = length beforeIds" by simp
    from spec_destination_range [OF k Cons.prems(4)] have kr: "k < length beforeIds" .
    have mv: "move_in_range afterIds offset (length beforeIds)
               \<lparr>movingIds = chg_value d, moveIndex = int k + offset\<rparr>"
      using sub kr by (simp add: move_in_range_def)
    from Cons.IH [OF rest s di le] True st mv show ?thesis
      by (simp add: split_def Let_def)
  qed
qed

section \<open>The sort\<close>

lemma mset_insert_js: "insert_js cmp x ys = Inr zs \<Longrightarrow> mset zs = add_mset x (mset ys)"
proof (induction ys arbitrary: zs)
  case Nil
  then show ?case by auto
next
  case (Cons y ys)
  then show ?case
    by (auto split: sum.splits if_splits)
qed

lemma mset_sort_with: "sort_with cmp xs = Inr ys \<Longrightarrow> mset ys = mset xs"
proof (induction xs arbitrary: ys)
  case Nil
  then show ?case by simp
next
  case (Cons x xs)
  then show ?case
    by (auto split: sum.splits dest: mset_insert_js)
qed

lemma sort_js_Inr:
  "sort_js comparator xs = Inr ys \<Longrightarrow> sort_with (sortCompare comparator) xs = Inr ys"
  by (cases comparator) (simp_all add: sort_js_def)

lemma mset_sort_js: "sort_js comparator xs = Inr ys \<Longrightarrow> mset ys = mset xs"
  by (drule sort_js_Inr) (rule mset_sort_with)

lemma sort_js_ids:
  assumes "sort_js comparator xs = Inr ys"
  shows "mset (map tab_id ys) = mset (map tab_id xs)"
  using mset_sort_js [OF assms] by simp

lemma sorted_ids:
  assumes "sort_js comparator tabs = Inr s" "distinct (map tab_id tabs)"
  shows "distinct (map tab_id s)" "set (map tab_id s) = set (map tab_id tabs)"
    "length s = length tabs"
proof -
  from sort_js_ids [OF assms(1)] have m: "mset (map tab_id s) = mset (map tab_id tabs)" .
  from m assms(2) show "distinct (map tab_id s)"
    by (metis mset_eq_imp_distinct_iff)
  from m show "set (map tab_id s) = set (map tab_id tabs)"
    by (rule mset_eq_setD)
  from mset_sort_js [OF assms(1)] show "length s = length tabs"
    by (rule mset_eq_length)
qed

lemma sort_with_sorted: "sorted_by cmp xs \<Longrightarrow> sort_with cmp xs = Inr xs"
proof (induction cmp xs rule: sorted_by.induct)
  case (1 cmp)
  then show ?case by simp
next
  case (2 cmp x)
  then show ?case by simp
next
  case (3 cmp x y ys)
  then show ?case by (auto split: sum.splits)
qed

lemma sort_js_sorted:
  "sort_js comparator xs = Inr ys \<Longrightarrow> sorted_by (sortCompare comparator) zs
     \<Longrightarrow> sort_js comparator zs = Inr zs"
  by (cases comparator) (simp_all add: sort_js_def sort_with_sorted)

lemma insert_js_head:
  "insert_js cmp x ys = Inr zs \<Longrightarrow> zs \<noteq> [] \<and> (hd zs = x \<or> (ys \<noteq> [] \<and> hd zs = hd ys))"
  by (cases ys) (auto split: sum.splits if_splits)

lemma sorted_by_Cons:
  "sorted_by cmp (y # zs) \<longleftrightarrow>
     (zs = [] \<or> (case cmp y (hd zs) of Inl e \<Rightarrow> False | Inr r \<Rightarrow> r \<le> 0)) \<and> sorted_by cmp zs"
  by (cases zs) auto

lemma insert_js_sorted:
  assumes "sorted_by cmp ys" "insert_js cmp x ys = Inr zs"
    and "\<And>y r. y \<in> set ys \<Longrightarrow> cmp x y = Inr r \<Longrightarrow> 0 < r
            \<Longrightarrow> (case cmp y x of Inl e \<Rightarrow> False | Inr r' \<Rightarrow> r' \<le> 0)"
  shows "sorted_by cmp zs"
  using assms
proof (induction ys arbitrary: zs)
  case Nil
  then show ?case by auto
next
  case (Cons y ys)
  from Cons.prems(2) obtain r where r: "cmp x y = Inr r"
    by (cases "cmp x y") simp_all
  show ?case
  proof (cases "r \<le> 0")
    case True
    with r Cons.prems(1,2) show ?thesis by auto
  next
    case False
    with r Cons.prems(2) obtain zs' where zs': "insert_js cmp x ys = Inr zs'" "zs = y # zs'"
      by (cases "insert_js cmp x ys") simp_all
    from Cons.prems(1) have sys: "sorted_by cmp ys" by (simp add: sorted_by_Cons)
    have s': "sorted_by cmp zs'"
      using sys zs'(1) Cons.prems(3) by (rule Cons.IH) simp_all
    from False r Cons.prems(3) [of y r]
    have yx: "(case cmp y x of Inl e \<Rightarrow> False | Inr r' \<Rightarrow> r' \<le> 0)" by simp
    from insert_js_head [OF zs'(1)] have
      h: "zs' \<noteq> []" "hd zs' = x \<or> (ys \<noteq> [] \<and> hd zs' = hd ys)" by simp_all
    have "(case cmp y (hd zs') of Inl e \<Rightarrow> False | Inr r \<Rightarrow> r \<le> 0)"
    proof (cases "hd zs' = x")
      case True
      with yx show ?thesis by simp
    next
      case False
      with h(2) have "ys \<noteq> []" "hd zs' = hd ys" by simp_all
      with Cons.prems(1) show ?thesis by (simp add: sorted_by_Cons)
    qed
    with s' zs'(2) show ?thesis by (simp add: sorted_by_Cons)
  qed
qed

lemma sort_with_sorts:
  assumes "consistent_on cmp xs" "sort_with cmp xs = Inr ys"
  shows "sorted_by cmp ys"
  using assms
proof (induction xs arbitrary: ys)
  case Nil
  then show ?case by simp
next
  case (Cons x xs)
  from Cons.prems(2) obtain ys' where ys': "sort_with cmp xs = Inr ys'"
    and ins: "insert_js cmp x ys' = Inr ys"
    by (cases "sort_with cmp xs") simp_all
  from Cons.prems(1) have "consistent_on cmp xs"
    by (auto simp: consistent_on_def list_all_iff)
  from Cons.IH [OF this ys'] have s: "sorted_by cmp ys'" .
  from mset_sort_with [OF ys'] have "set ys' = set xs" by (rule mset_eq_setD)
  with Cons.prems(1) have
    "\<And>y r. y \<in> set ys' \<Longrightarrow> cmp x y = Inr r \<Longrightarrow> 0 < r
       \<Longrightarrow> (case cmp y x of Inl e \<Rightarrow> False | Inr r' \<Rightarrow> r' \<le> 0)"
    by (fastforce simp: consistent_on_def list_all_iff split: sum.splits)
  with s ins show ?case by (rule insert_js_sorted)
qed

lemma insert_js_set: "insert_js cmp x ys = Inr zs \<Longrightarrow> set zs = insert x (set ys)"
  by (drule mset_insert_js) (metis set_mset_add_mset_insert set_mset_mset)

lemma insert_js_keeps_order:
  "insert_js cmp x ys = Inr zs \<Longrightarrow> precedes a b ys \<Longrightarrow> precedes a b zs"
proof (induction ys arbitrary: zs)
  case Nil
  then show ?case by simp
next
  case (Cons y ys)
  then show ?case
    by (auto split: sum.splits if_splits dest: insert_js_set)
qed

lemma insert_js_before:
  "insert_js cmp x ys = Inr zs \<Longrightarrow> b \<in> set ys \<Longrightarrow> cmp x b = Inr r \<Longrightarrow> r \<le> 0
     \<Longrightarrow> precedes x b zs"
proof (induction ys arbitrary: zs)
  case Nil
  then show ?case by simp
next
  case (Cons y ys)
  then show ?case
    by (auto split: sum.splits if_splits dest: insert_js_set)
qed

lemma sort_with_stable:
  "sort_with cmp xs = Inr ys \<Longrightarrow> precedes a b xs \<Longrightarrow> cmp a b = Inr r \<Longrightarrow> r \<le> 0
     \<Longrightarrow> precedes a b ys"
proof (induction xs arbitrary: ys)
  case Nil
  then show ?case by simp
next
  case (Cons x xs)
  from Cons.prems(1) obtain ys' where ys': "sort_with cmp xs = Inr ys'"
    and ins: "insert_js cmp x ys' = Inr ys"
    by (cases "sort_with cmp xs") simp_all
  from mset_sort_with [OF ys'] have sets: "set ys' = set xs" by (rule mset_eq_setD)
  from Cons.prems(2) consider "x = a" "b \<in> set xs" | "precedes a b xs" by auto
  then show ?case
  proof cases
    case 1
    with sets have "b \<in> set ys'" by simp
    from insert_js_before [OF ins this] 1(1) Cons.prems(3,4) show ?thesis by simp
  next
    case 2
    from Cons.IH [OF ys' 2 Cons.prems(3,4)] have "precedes a b ys'" .
    with ins show ?thesis by (rule insert_js_keeps_order)
  qed
qed

lemma sort_with_total:
  assumes "\<And>a b. \<exists>r. cmp a b = Inr r"
  shows "\<exists>ys. sort_with cmp xs = Inr ys"
proof -
  have ins: "\<exists>zs. insert_js cmp x ys = Inr zs" for x ys
  proof (induction ys)
    case Nil
    then show ?case by simp
  next
    case (Cons y ys)
    from assms [of x y] obtain r where "cmp x y = Inr r" ..
    with Cons show ?case by auto
  qed
  show ?thesis
  proof (induction xs)
    case Nil
    then show ?case by simp
  next
    case (Cons x xs)
    then obtain ys where "sort_with cmp xs = Inr ys" ..
    with ins [of x ys] show ?case by auto
  qed
qed

lemma sort_with_raises:
  assumes "t \<in> set xs" "2 \<le> length xs"
    and "\<And>y. cmp t y = Inl TypeError" "\<And>y. cmp y t = Inl TypeError"
  shows "sort_with cmp xs = Inl TypeError"
  using assms(1,2)
proof (induction xs)
  case Nil
  then show ?case by simp
next
  case (Cons x xs)
  show ?case
  proof (cases "sort_with cmp xs")
    case (Inl e)
    then show ?thesis by (cases e) simp
  next
    case (Inr ys)
    from mset_sort_with [OF Inr] have m: "mset ys = mset xs" .
    from Cons.prems(2) have "xs \<noteq> []" by auto
    with m have "ys \<noteq> []" by auto
    then obtain y ys' where ys: "ys = y # ys'" by (cases ys) auto
    show ?thesis
    proof (cases "t = x")
      case True
      with Inr ys assms(3) [of y] show ?thesis by simp
    next
      case False
      with Cons.prems(1) have tin: "t \<in> set xs" by simp
      have "\<not> 2 \<le> length xs"
      proof
        assume "2 \<le> length xs"
        from Cons.IH [OF tin this] Inr show False by simp
      qed
      moreover from \<open>xs \<noteq> []\<close> have "length xs \<noteq> 0" by simp
      ultimately have "length xs = 1" by linarith
      with tin have "xs = [t]" by (cases xs) auto
      with Inr have "ys = [t]" by simp
      with Inr assms(4) [of x] show ?thesis by simp
    qed
  qed
qed

lemma all_equal_sorted:
  "list_all (\<lambda>x. list_all (\<lambda>y. cmp x y = Inr 0) xs) xs \<Longrightarrow> sorted_by cmp xs"
proof (induction cmp xs rule: sorted_by.induct)
  case (1 cmp)
  then show ?case by simp
next
  case (2 cmp x)
  then show ?case by simp
next
  case (3 cmp x y ys)
  from "3.prems" have "list_all (\<lambda>x. list_all (\<lambda>y. cmp x y = Inr 0) (y # ys)) (y # ys)"
    by (auto simp: list_all_iff)
  from "3.IH" [OF this] "3.prems" show ?case by simp
qed

lemma ordinalCompare_same: "ordinalCompare s s = 0"
  by (induction s) simp_all

lemma sort_js_default: "sort_js JsUndefined tabs = Inr tabs"
proof -
  have "list_all (\<lambda>x. list_all (\<lambda>y. defaultCompare x y = Inr 0) tabs) tabs"
    by (simp add: defaultCompare_def toString_tab_def ordinalCompare_same list_all_iff)
  then have "sorted_by defaultCompare tabs" by (rule all_equal_sorted)
  then show ?thesis by (simp add: sort_js_def sortCompare_def sort_with_sorted)
qed

section \<open>Edit scripts\<close>

lemma kept_values_member:
  assumes "d \<in> set script" "P d" "distinct (kept_values P script)"
  shows "distinct (chg_value d) \<and> set (chg_value d) \<subseteq> set (kept_values P script)"
  using assms
proof (induction script)
  case Nil
  then show ?case by simp
next
  case (Cons c cs)
  then show ?case
    by (auto simp: kept_values_def)
qed

lemma edit_script_added_runs_ok:
  assumes "edit_script beforeIds afterIds script" "distinct afterIds"
  shows "added_runs_ok afterIds script"
proof -
  from assms(1) have all: "list_all (\<lambda>c. chg_value c \<noteq> [] \<and> \<not> (chg_added c \<and> chg_removed c)) script"
    and after: "kept_values (\<lambda>c. \<not> chg_removed c) script = afterIds"
    by (simp_all add: edit_script_def)
  have "chg_value d \<noteq> [] \<and> distinct (chg_value d) \<and> set (chg_value d) \<subseteq> set afterIds"
    if d: "d \<in> set script" and a: "chg_added d" for d
  proof -
    from all d have ne: "chg_value d \<noteq> []" and nr: "\<not> (chg_added d \<and> chg_removed d)"
      by (simp_all add: list_all_iff)
    from nr a have "\<not> chg_removed d" by simp
    from kept_values_member [of d script "\<lambda>c. \<not> chg_removed c", OF d this]
      assms(2) after ne show ?thesis by simp
  qed
  then show ?thesis
    by (simp add: added_runs_ok_def list_all_iff)
qed

lemma script_runs_ok:
  assumes "sort_js comparator tabs = Inr s" "distinct (map tab_id tabs)"
    "diff_ok differ comparator tabs"
  shows "added_runs_ok (map tab_id s) (differ (map tab_id tabs) (map tab_id s))"
proof -
  from assms(3,1) have "edit_script (map tab_id tabs) (map tab_id s)
                          (differ (map tab_id tabs) (map tab_id s))"
    by (simp add: diff_ok_def)
  then show ?thesis
    using sorted_ids(1) [OF assms(1,2)] by (rule edit_script_added_runs_ok)
qed

lemma lcs_length_same: "lcs_length xs xs = length xs"
  by (induction xs) simp_all

lemma kept_values_split:
  assumes "list_all (\<lambda>c. chg_value c \<noteq> [] \<and> \<not> (chg_added c \<and> chg_removed c)) script"
  shows "length (kept_values (\<lambda>c. \<not> chg_removed c) script) =
         length (kept_values (\<lambda>c. \<not> chg_added c \<and> \<not> chg_removed c) script) +
         length (kept_values chg_added script)"
  using assms by (induction script) (auto simp: kept_values_def)

lemma kept_values_empty:
  assumes "list_all (\<lambda>c. chg_value c \<noteq> [] \<and> \<not> (chg_added c \<and> chg_removed c)) script"
    and "kept_values chg_added script = []"
  shows "list_all (\<lambda>c. \<not> chg_added c) script"
  using assms by (induction script) (auto simp: kept_values_def)

lemma lcs_script_same:
  assumes "lcs_script xs xs script"
  shows "list_all (\<lambda>c. \<not> chg_added c) script"
proof -
  from assms have all:
    "list_all (\<lambda>c. chg_value c \<noteq> [] \<and> \<not> (chg_added c \<and> chg_removed c)) script"
    and after: "kept_values (\<lambda>c. \<not> chg_removed c) script = xs"
    and common: "length (kept_values (\<lambda>c. \<not> chg_added c \<and> \<not> chg_removed c) script)
                   = length xs"
    by (simp_all add: lcs_script_def edit_script_def lcs_length_same)
  from kept_values_split [OF all] after common
  have "length (kept_values chg_added script) = 0" by simp
  then have "kept_values chg_added script = []" by simp
  with all show ?thesis by (rule kept_values_empty)
qed

lemma moveLoop_no_added:
  "list_all (\<lambda>c. \<not> chg_added c) ds
     \<Longrightarrow> moveLoop beforeIds afterIds offset ds currentIds = ([], currentIds)"
  by (induction ds) simp_all

section \<open>The diff used on concrete inputs\<close>

text \<open>
  \<open>lcs_diff\<close> returns, for any two sequences, an edit script whose common part is as long
  as a longest common subsequence: what the theorems below ask of the diff can be had
  for every input.
\<close>

lemma kept_values_Cons:
  "kept_values P (c # cs) = (if P c then chg_value c else []) @ kept_values P cs"
  by (simp add: kept_values_def)

lemma kept_values_map_single:
  "kept_values P (map (\<lambda>y. \<lparr>chg_value = [y], chg_added = a, chg_removed = r\<rparr>) ys) =
     (if P \<lparr>chg_value = [], chg_added = a, chg_removed = r\<rparr> then ys else [])"
  if "\<And>c d. chg_added c = chg_added d \<Longrightarrow> chg_removed c = chg_removed d \<Longrightarrow> P c = P d"
proof -
  have "P \<lparr>chg_value = [y], chg_added = a, chg_removed = r\<rparr>
          = P \<lparr>chg_value = [], chg_added = a, chg_removed = r\<rparr>" for y
    by (rule that) simp_all
  then have step: "kept_values P (\<lparr>chg_value = [y], chg_added = a, chg_removed = r\<rparr> # cs)
                     = (if P \<lparr>chg_value = [], chg_added = a, chg_removed = r\<rparr> then [y] else [])
                         @ kept_values P cs" for y cs
    by (simp add: kept_values_Cons)
  have nil: "kept_values P [] = []" by (simp add: kept_values_def)
  show ?thesis by (induction ys) (simp_all add: step nil)
qed

lemma lcs_edits_before: "kept_values (\<lambda>c. \<not> chg_added c) (lcs_edits xs ys) = xs"
proof (induction xs ys rule: lcs_edits.induct)
  case (1 ys)
  then show ?case by (simp add: kept_values_map_single)
next
  case (2 x xs)
  have "kept_values (\<lambda>c. \<not> chg_added c)
          (map (\<lambda>z. \<lparr>chg_value = [z], chg_added = False, chg_removed = True\<rparr>) (x # xs)) = x # xs"
    by (subst kept_values_map_single) simp_all
  then show ?case by simp
next
  case (3 x xs y ys)
  then show ?case by (simp add: kept_values_Cons)
qed

lemma lcs_edits_after: "kept_values (\<lambda>c. \<not> chg_removed c) (lcs_edits xs ys) = ys"
proof (induction xs ys rule: lcs_edits.induct)
  case (1 ys)
  then show ?case by (simp add: kept_values_map_single)
next
  case (2 x xs)
  have "kept_values (\<lambda>c. \<not> chg_removed c)
          (map (\<lambda>z. \<lparr>chg_value = [z], chg_added = False, chg_removed = True\<rparr>) (x # xs)) = []"
    by (subst kept_values_map_single) simp_all
  then show ?case by simp
next
  case (3 x xs y ys)
  then show ?case by (simp add: kept_values_Cons)
qed

lemma lcs_edits_common:
  "length (kept_values (\<lambda>c. \<not> chg_added c \<and> \<not> chg_removed c) (lcs_edits xs ys))
     = lcs_length xs ys"
proof (induction xs ys rule: lcs_edits.induct)
  case (1 ys)
  then show ?case by (simp add: kept_values_map_single)
next
  case (2 x xs)
  have "kept_values (\<lambda>c. \<not> chg_added c \<and> \<not> chg_removed c)
          (map (\<lambda>z. \<lparr>chg_value = [z], chg_added = False, chg_removed = True\<rparr>) (x # xs)) = []"
    by (subst kept_values_map_single) simp_all
  then show ?case by simp
next
  case (3 x xs y ys)
  then show ?case by (simp add: kept_values_Cons max_def)
qed

lemma lcs_edits_runs:
  "list_all (\<lambda>c. chg_value c \<noteq> [] \<and> \<not> (chg_added c \<and> chg_removed c)) (lcs_edits xs ys)"
  by (induction xs ys rule: lcs_edits.induct) (simp_all add: list_all_iff)

lemma merge_runs_kept:
  assumes "\<And>c d. chg_added c = chg_added d \<Longrightarrow> chg_removed c = chg_removed d \<Longrightarrow> P c = P d"
  shows "kept_values P (merge_runs s) = kept_values P s"
proof (induction s rule: merge_runs.induct)
  case 1
  then show ?case by simp
next
  case (2 c)
  then show ?case by simp
next
  case (3 c d ds)
  show ?case
  proof (cases "chg_added c = chg_added d \<and> chg_removed c = chg_removed d")
    case True
    then have pd: "P d = P c" by (intro assms) simp_all
    have pc: "P (c\<lparr>chg_value := chg_value c @ chg_value d\<rparr>) = P c"
      by (rule assms) simp_all
    from True "3.IH"(1) have
      "kept_values P (merge_runs (c # d # ds))
         = kept_values P (c\<lparr>chg_value := chg_value c @ chg_value d\<rparr> # ds)"
      by simp
    also have "\<dots> = kept_values P (c # d # ds)"
      using pc pd by (simp add: kept_values_Cons)
    finally show ?thesis .
  next
    case False
    then have "merge_runs (c # d # ds) = c # merge_runs (d # ds)" by auto
    then have "kept_values P (merge_runs (c # d # ds))
                 = (if P c then chg_value c else []) @ kept_values P (merge_runs (d # ds))"
      by (simp only: kept_values_Cons)
    also from "3.IH"(2) [OF False]
    have "kept_values P (merge_runs (d # ds)) = kept_values P (d # ds)" .
    finally show ?thesis by (simp only: kept_values_Cons)
  qed
qed

lemma merge_runs_runs:
  "list_all (\<lambda>c. chg_value c \<noteq> [] \<and> \<not> (chg_added c \<and> chg_removed c)) s
     \<Longrightarrow> list_all (\<lambda>c. chg_value c \<noteq> [] \<and> \<not> (chg_added c \<and> chg_removed c)) (merge_runs s)"
  by (induction s rule: merge_runs.induct) simp_all

lemma lcs_diff_lcs_script: "lcs_script before after (lcs_diff before after)"
proof -
  have runs: "list_all (\<lambda>c. chg_value c \<noteq> [] \<and> \<not> (chg_added c \<and> chg_removed c))
                (lcs_diff before after)"
    unfolding lcs_diff_def using lcs_edits_runs by (rule merge_runs_runs)
  have b: "kept_values (\<lambda>c. \<not> chg_added c) (lcs_diff before after) = before"
    unfolding lcs_diff_def by (subst merge_runs_kept) (simp_all add: lcs_edits_before)
  have a: "kept_values (\<lambda>c. \<not> chg_removed c) (lcs_diff before after) = after"
    unfolding lcs_diff_def by (subst merge_runs_kept) (simp_all add: lcs_edits_after)
  have c: "length (kept_values (\<lambda>c. \<not> chg_added c \<and> \<not> chg_removed c)
                     (lcs_diff before after)) = lcs_length before after"
    unfolding lcs_diff_def by (subst merge_runs_kept) (simp_all add: lcs_edits_common)
  from runs b a c show ?thesis
    unfolding lcs_script_def edit_script_def by (intro conjI)
qed

lemma lcs_diff_ok: "diff_ok lcs_diff comparator tabs"
  using lcs_diff_lcs_script [of "map tab_id tabs"]
  by (auto simp: diff_ok_def lcs_script_def split: sum.splits)

section \<open>Sorting one partition\<close>

lemma sortTabsInternal_same_order:
  assumes "sort_js comparator tabs = Inr s" "map tab_id s = map tab_id tabs"
    and "lcs_script (map tab_id tabs) (map tab_id tabs)
           (differ (map tab_id tabs) (map tab_id tabs))"
  shows "sortTabsInternal differ tabs comparator = Inr ([], map tab_id tabs)"
proof (cases "tabs = []")
  case True
  then show ?thesis by (simp add: sortTabsInternal_def)
next
  case False
  from moveLoop_no_added [OF lcs_script_same [OF assms(3)]] False assms(1,2)
  show ?thesis by (simp add: sortTabsInternal_def Let_def)
qed

text \<open>
  The moves of one partition stay in it, and the working copy ends as a rearrangement of
  the order before: no identifier is made up and none is lost.
\<close>

lemma sortTabsInternal_moves:
  assumes "distinct (map tab_id tabs)" "diff_ok differ comparator tabs"
    "sortTabsInternal differ tabs comparator = Inr (mvs, final)"
  shows "list_all (move_in_range (map tab_id tabs) (tab_index (hd tabs)) (length tabs)) mvs"
    and "mset final = mset (map tab_id tabs)"
proof -
  have "list_all (move_in_range (map tab_id tabs) (tab_index (hd tabs)) (length tabs)) mvs
        \<and> mset final = mset (map tab_id tabs)"
  proof (cases "tabs = []")
    case True
    with assms(3) show ?thesis by (simp add: sortTabsInternal_def)
  next
    case False
    with assms(3) obtain s where s: "sort_js comparator tabs = Inr s"
      by (cases "sort_js comparator tabs") (simp_all add: sortTabsInternal_def)
    let ?b = "map tab_id tabs" and ?a = "map tab_id s"
    from False s assms(3) have run:
      "moveLoop ?b ?a (tab_index (hd tabs)) (differ ?b ?a) ?b = (mvs, final)"
      by (simp add: sortTabsInternal_def Let_def)
    have eq: "set ?b = set ?a" using sorted_ids(2) [OF s assms(1)] by simp
    have len: "length ?b = length ?b" by simp
    from moveLoop_invariant [OF script_runs_ok [OF s assms(1,2)] eq assms(1) len,
        of "tab_index (hd tabs)"] run
    have inv: "list_all (move_in_range ?a (tab_index (hd tabs)) (length ?b)) mvs"
      "set final = set ?a" "distinct final"
      by simp_all
    have "move_in_range ?a off n = move_in_range ?b off n" for off n
      unfolding move_in_range_def eq ..
    with inv(1) have "list_all (move_in_range ?b (tab_index (hd tabs)) (length tabs)) mvs"
      by simp
    moreover from inv(2,3) eq assms(1) have "mset final = mset ?b"
      by (metis set_eq_iff_mset_eq_distinct)
    ultimately show ?thesis by simp
  qed
  then show "list_all (move_in_range (map tab_id tabs) (tab_index (hd tabs)) (length tabs)) mvs"
    and "mset final = mset (map tab_id tabs)" by simp_all
qed

text \<open>
  C1. The claim is that the working copy \<open>currentIds\<close> ends equal to the sorted order
  \<open>afterIds\<close>. It does not when a run of two identifiers moves to the right past its
  anchor: six tabs with the identifiers 1 to 6, last accessed at 40, 50, 10, 20, 30 and
  60, sort by last access to 3, 4, 5, 1, 2, 6. The only longest common subsequence is
  3, 4, 5, 6, so the script inserts the run 1, 2 in front of 6. The anchor 6 stands at
  position 5 and the destination becomes 4; once 1 and 2 are taken out, 6 stands at
  position 3, and the run is spliced in behind it. The working copy ends as
  3, 4, 5, 6, 1, 2.
\<close>

theorem working_copy_misses_target:
  "sortTabsInternal lcs_diff access_tabs (JsFunction compareByLastAccessAsc) =
     Inr ([\<lparr>movingIds = [1, 2], moveIndex = 4\<rparr>], [3, 4, 5, 6, 1, 2]) \<and>
   map_sum id (map tab_id) (sort_js (JsFunction compareByLastAccessAsc) access_tabs) =
     Inr [3, 4, 5, 1, 2, 6] \<and>
   lcs_script [1, 2, 3, 4, 5, 6] [3, 4, 5, 1, 2, 6]
     (lcs_diff [1, 2, 3, 4, 5, 6] [3, 4, 5, 1, 2, 6])"
  by code_simp

text \<open>
  C2. For a partition with distinct identifiers and a diff that returns an edit script,
  \<open>sortTabsInternal\<close> does what the specification describes, run by run: the anchor is
  the element after the run's last identifier in the sorted order, the destination is
  the anchor's position in the working copy or the length of the order before when
  there is no anchor, it is one less exactly when the run's first identifier stands in
  front of it, the index asked of the host is the destination plus the offset, and the
  working copy is updated by taking the run out and putting it in at the destination.
\<close>

theorem destination_as_specified:
  assumes "distinct (map tab_id tabs)" "diff_ok differ comparator tabs"
  shows "spec_reorder differ tabs comparator = Some (sortTabsInternal differ tabs comparator)"
proof (cases "tabs = []")
  case True
  then show ?thesis by (simp add: spec_reorder_def sortTabsInternal_def)
next
  case False
  show ?thesis
  proof (cases "sort_js comparator tabs")
    case (Inl e)
    with False show ?thesis by (simp add: spec_reorder_def sortTabsInternal_def)
  next
    case (Inr s)
    from sorted_ids(2) [OF Inr assms(1)]
    have "set (map tab_id tabs) = set (map tab_id s)" by simp
    from moveLoop_refines [OF script_runs_ok [OF Inr assms] this] False Inr
    show ?thesis by (simp add: spec_reorder_def sortTabsInternal_def Let_def)
  qed
qed

theorem destination_as_specified_witness:
  "distinct (map tab_id swapped_tabs) \<and>
   diff_ok lcs_diff (JsFunction compareByLastAccessAsc) swapped_tabs \<and>
   spec_reorder lcs_diff swapped_tabs (JsFunction compareByLastAccessAsc) =
     Some (Inr ([\<lparr>movingIds = [1], moveIndex = 1\<rparr>, \<lparr>movingIds = [4], moveIndex = 4\<rparr>],
                [2, 1, 3, 5, 4]))"
proof -
  have ids: "distinct (map tab_id swapped_tabs)" by code_simp
  have ok: "diff_ok lcs_diff (JsFunction compareByLastAccessAsc) swapped_tabs" by code_simp
  have run: "sortTabsInternal lcs_diff swapped_tabs (JsFunction compareByLastAccessAsc) =
               Inr ([\<lparr>movingIds = [1], moveIndex = 1\<rparr>, \<lparr>movingIds = [4], moveIndex = 4\<rparr>],
                    [2, 1, 3, 5, 4])"
    by code_simp
  from destination_as_specified [OF ids ok] ids ok run show ?thesis by simp
qed

section \<open>Sorting the window\<close>

lemma moves_of_map: "moves_of (map TabsMove mvs) = mvs"
  by (induction mvs) simp_all

text \<open>
  C3. With the setting for pinned tabs off, and distinct identifiers in the window, no
  move names the identifier of a pinned tab, and the index of every move lies among the
  positions of the partition of the tabs that are not pinned: from the index of its
  first tab on, as many positions as it has tabs.
\<close>

theorem partition_isolation:
  assumes ids: "distinct (map tab_id tabs)"
    and off: "\<not> settings_sort_pinned st"
    and ok: "diff_ok differ comparator (filter (\<lambda>t. \<not> tab_pinned t) tabs)"
  shows "list_all
           (\<lambda>mv. (\<forall>t \<in> set tabs. tab_pinned t \<longrightarrow> tab_id t \<notin> set (movingIds mv)) \<and>
                 tab_index (hd (filter (\<lambda>t. \<not> tab_pinned t) tabs)) \<le> moveIndex mv \<and>
                 moveIndex mv < tab_index (hd (filter (\<lambda>t. \<not> tab_pinned t) tabs))
                                  + int (length (filter (\<lambda>t. \<not> tab_pinned t) tabs)))
           (moves_of (events (sortTabs differ comparator st tabs)))"
proof -
  let ?normal = "filter (\<lambda>t. \<not> tab_pinned t) tabs"
  have nids: "distinct (map tab_id ?normal)"
    using ids by (rule distinct_map_filter)
  have apart: "tab_id t \<notin> set (map tab_id ?normal)" if "t \<in> set tabs" "tab_pinned t" for t
  proof
    assume "tab_id t \<in> set (map tab_id ?normal)"
    then obtain u where u: "u \<in> set tabs" "\<not> tab_pinned u" "tab_id u = tab_id t"
      by auto
    from ids have "inj_on tab_id (set tabs)" by (simp add: distinct_map)
    with u(1,3) that(1) have "u = t" by (auto dest: inj_onD)
    with u(2) that(2) show False by simp
  qed
  show ?thesis
  proof (cases "sortTabsInternal differ ?normal comparator")
    case (Inl e)
    with off show ?thesis by (simp add: sortTabs_def)
  next
    case (Inr r)
    obtain mvs final where r: "r = (mvs, final)" by (cases r)
    from Inr r off have ev: "moves_of (events (sortTabs differ comparator st tabs)) = mvs"
      by (simp add: sortTabs_def moves_of_map)
    from sortTabsInternal_moves(1) [OF nids ok Inr [unfolded r]]
    have "list_all (move_in_range (map tab_id ?normal) (tab_index (hd ?normal))
                      (length ?normal)) mvs" .
    then show ?thesis
      unfolding ev list_all_iff move_in_range_def using apart by blast
  qed
qed

theorem partition_isolation_witness:
  "distinct (map tab_id pinned_strip) \<and>
   \<not> settings_sort_pinned unpinned_only \<and>
   diff_ok lcs_diff (JsFunction (compareByTitleDesc ordinalCompare))
     (filter (\<lambda>t. \<not> tab_pinned t) pinned_strip) \<and>
   moves_of (events (sortTabs lcs_diff (JsFunction (compareByTitleDesc ordinalCompare))
                       unpinned_only pinned_strip))
     = [\<lparr>movingIds = [2, 1], moveIndex = 4\<rparr>] \<and>
   list_all
     (\<lambda>mv. (\<forall>t \<in> set pinned_strip. tab_pinned t \<longrightarrow> tab_id t \<notin> set (movingIds mv)) \<and>
           tab_index (hd (filter (\<lambda>t. \<not> tab_pinned t) pinned_strip)) \<le> moveIndex mv \<and>
           moveIndex mv < tab_index (hd (filter (\<lambda>t. \<not> tab_pinned t) pinned_strip))
                            + int (length (filter (\<lambda>t. \<not> tab_pinned t) pinned_strip)))
     (moves_of (events (sortTabs lcs_diff (JsFunction (compareByTitleDesc ordinalCompare))
                          unpinned_only pinned_strip)))"
proof -
  have ids: "distinct (map tab_id pinned_strip)" by code_simp
  have off: "\<not> settings_sort_pinned unpinned_only" by code_simp
  have ok: "diff_ok lcs_diff (JsFunction (compareByTitleDesc ordinalCompare))
              (filter (\<lambda>t. \<not> tab_pinned t) pinned_strip)"
    by code_simp
  have run: "moves_of (events (sortTabs lcs_diff (JsFunction (compareByTitleDesc ordinalCompare))
                                 unpinned_only pinned_strip))
               = [\<lparr>movingIds = [2, 1], moveIndex = 4\<rparr>]"
    by code_simp
  from ids off ok run partition_isolation [OF ids off ok] show ?thesis
    by (intro conjI)
qed

section \<open>A partition that is already in order\<close>

lemma map_tab_id_reindex: "map tab_id (reindex k ts) = map tab_id ts"
  by (induction ts arbitrary: k) simp_all

lemma sorted_by_reindex:
  assumes free: "\<And>a b i j. cmp (a\<lparr>tab_index := i\<rparr>) (b\<lparr>tab_index := j\<rparr>) = cmp a b"
  shows "sorted_by cmp ts \<Longrightarrow> sorted_by cmp (reindex k ts)"
proof (induction ts arbitrary: k rule: induct_list012)
  case 1
  then show ?case by simp
next
  case (2 x)
  then show ?case by simp
next
  case (3 x y ys)
  from "3.prems" have "sorted_by cmp (y # ys)" by simp
  from "3.IH"(2) [OF this, of "k + 1"]
  have "sorted_by cmp (y\<lparr>tab_index := k + 1\<rparr> # reindex (k + 1 + 1) ys)" by simp
  moreover from "3.prems"
  have "(case cmp (x\<lparr>tab_index := k\<rparr>) (y\<lparr>tab_index := k + 1\<rparr>) of
           Inl e \<Rightarrow> False | Inr r \<Rightarrow> r \<le> 0)"
    unfolding free by simp
  ultimately show ?case by simp
qed

text \<open>
  For a diff based on a longest common subsequence, a partition whose identifiers
  already stand in the sorted order gets no move. The sorted order of a run is such a
  partition, with the tabs standing at any positions \<open>k\<close>, \<open>k + 1\<close>, ..., when the
  comparison function does not contradict itself and does not read the position of a
  tab: a run on a partition that has reached its sorted order asks for nothing.
\<close>

lemma sorted_order_emits_nothing:
  assumes "sort_js comparator tabs = Inr s"
    and "lcs_script (map tab_id s) (map tab_id s) (differ (map tab_id s) (map tab_id s))"
  shows "(map tab_id s = map tab_id tabs \<longrightarrow>
            sortTabsInternal differ tabs comparator = Inr ([], map tab_id tabs)) \<and>
         (consistent_on (sortCompare comparator) tabs \<and>
          (\<forall>a b i j. sortCompare comparator (a\<lparr>tab_index := i\<rparr>) (b\<lparr>tab_index := j\<rparr>)
                       = sortCompare comparator a b) \<longrightarrow>
            sortTabsInternal differ (reindex k s) comparator = Inr ([], map tab_id s))"
proof (intro conjI impI)
  assume same: "map tab_id s = map tab_id tabs"
  with assms(2) have "lcs_script (map tab_id tabs) (map tab_id tabs)
                        (differ (map tab_id tabs) (map tab_id tabs))" by simp
  with assms(1) same show "sortTabsInternal differ tabs comparator = Inr ([], map tab_id tabs)"
    by (rule sortTabsInternal_same_order)
next
  assume h: "consistent_on (sortCompare comparator) tabs \<and>
          (\<forall>a b i j. sortCompare comparator (a\<lparr>tab_index := i\<rparr>) (b\<lparr>tab_index := j\<rparr>)
                       = sortCompare comparator a b)"
  let ?cmp = "sortCompare comparator"
  from h sort_js_Inr [OF assms(1)] have "sorted_by ?cmp s"
    by (auto intro: sort_with_sorts)
  with h have "sorted_by ?cmp (reindex k s)"
    by (auto intro: sorted_by_reindex)
  then have again: "sort_js comparator (reindex k s) = Inr (reindex k s)"
    by (rule sort_js_sorted [OF assms(1)])
  have "sortTabsInternal differ (reindex k s) comparator
          = Inr ([], map tab_id (reindex k s))"
    using again
  proof (rule sortTabsInternal_same_order)
    show "map tab_id (reindex k s) = map tab_id (reindex k s)" ..
    show "lcs_script (map tab_id (reindex k s)) (map tab_id (reindex k s))
            (differ (map tab_id (reindex k s)) (map tab_id (reindex k s)))"
      using assms(2) by (simp add: map_tab_id_reindex)
  qed
  then show "sortTabsInternal differ (reindex k s) comparator = Inr ([], map tab_id s)"
    by (simp add: map_tab_id_reindex)
qed

lemma sorted_order_emits_nothing_example:
  "sort_js (JsFunction compareByLastAccessAsc) ordered_tabs = Inr ordered_tabs \<and>
   lcs_script (map tab_id ordered_tabs) (map tab_id ordered_tabs)
     (lcs_diff (map tab_id ordered_tabs) (map tab_id ordered_tabs)) \<and>
   consistent_on (sortCompare (JsFunction compareByLastAccessAsc)) ordered_tabs \<and>
   sortTabsInternal lcs_diff ordered_tabs (JsFunction compareByLastAccessAsc)
     = Inr ([], [3, 1, 2]) \<and>
   sortTabsInternal lcs_diff (reindex 7 ordered_tabs) (JsFunction compareByLastAccessAsc)
     = Inr ([], [3, 1, 2])"
proof -
  have first: "sort_js (JsFunction compareByLastAccessAsc) ordered_tabs = Inr ordered_tabs"
    by code_simp
  have script: "lcs_script (map tab_id ordered_tabs) (map tab_id ordered_tabs)
                  (lcs_diff (map tab_id ordered_tabs) (map tab_id ordered_tabs))"
    by code_simp
  have cons: "consistent_on (sortCompare (JsFunction compareByLastAccessAsc)) ordered_tabs"
    by code_simp
  have free: "\<forall>a b i j. sortCompare (JsFunction compareByLastAccessAsc)
                          (a\<lparr>tab_index := i\<rparr>) (b\<lparr>tab_index := j\<rparr>)
                        = sortCompare (JsFunction compareByLastAccessAsc) a b"
    by (simp add: sortCompare_def compareByLastAccessAsc_def)
  have ids: "map tab_id ordered_tabs = [3, 1, 2]" by code_simp
  from sorted_order_emits_nothing [where differ = lcs_diff and k = 7, OF first script]
    cons free ids
  have "sortTabsInternal lcs_diff ordered_tabs (JsFunction compareByLastAccessAsc)
          = Inr ([], [3, 1, 2]) \<and>
        sortTabsInternal lcs_diff (reindex 7 ordered_tabs) (JsFunction compareByLastAccessAsc)
          = Inr ([], [3, 1, 2])"
    by simp
  with first script cons show ?thesis by (intro conjI) simp_all
qed


section \<open>Tabs that compare equal\<close>

text \<open>
  C8. The sort is stable: a tab that stands in front of another and compares equal to it
  still stands in front of it in the sorted order. When all tabs of a partition compare
  equal, the sorted order is the order before, and with a diff based on a longest common
  subsequence no move is asked for. This holds for every comparison function, so for
  the ascending and the descending one alike.
\<close>

theorem equal_tabs_keep_their_order:
  assumes "sort_js comparator tabs = Inr s"
  shows "(precedes a b tabs \<and> sortCompare comparator a b = Inr 0 \<longrightarrow> precedes a b s) \<and>
         (list_all (\<lambda>x. list_all (\<lambda>y. sortCompare comparator x y = Inr 0) tabs) tabs \<and>
          lcs_script (map tab_id tabs) (map tab_id tabs)
            (differ (map tab_id tabs) (map tab_id tabs)) \<longrightarrow>
            s = tabs \<and> sortTabsInternal differ tabs comparator = Inr ([], map tab_id tabs))"
proof (intro conjI impI)
  assume "precedes a b tabs \<and> sortCompare comparator a b = Inr 0"
  with sort_js_Inr [OF assms] show "precedes a b s"
    by (auto intro: sort_with_stable)
next
  assume h: "list_all (\<lambda>x. list_all (\<lambda>y. sortCompare comparator x y = Inr 0) tabs) tabs \<and>
          lcs_script (map tab_id tabs) (map tab_id tabs)
            (differ (map tab_id tabs) (map tab_id tabs))"
  then have "sorted_by (sortCompare comparator) tabs" by (simp add: all_equal_sorted)
  then have "sort_js comparator tabs = Inr tabs" by (rule sort_js_sorted [OF assms])
  with assms show eq: "s = tabs" by simp
  from assms eq h show "sortTabsInternal differ tabs comparator = Inr ([], map tab_id tabs)"
    by (auto intro: sortTabsInternal_same_order)
qed

theorem equal_tabs_keep_their_order_witness:
  "sort_js (JsFunction (compareByTitleDesc ordinalCompare)) same_title_tabs = Inr same_title_tabs \<and>
   precedes (same_title_tabs ! 0) (same_title_tabs ! 1) same_title_tabs \<and>
   sortCompare (JsFunction (compareByTitleDesc ordinalCompare))
     (same_title_tabs ! 0) (same_title_tabs ! 1) = Inr 0 \<and>
   list_all (\<lambda>x. list_all (\<lambda>y. sortCompare (JsFunction (compareByTitleDesc ordinalCompare)) x y
                                 = Inr 0) same_title_tabs) same_title_tabs \<and>
   lcs_script (map tab_id same_title_tabs) (map tab_id same_title_tabs)
     (lcs_diff (map tab_id same_title_tabs) (map tab_id same_title_tabs)) \<and>
   sortTabsInternal lcs_diff same_title_tabs (JsFunction (compareByTitleDesc ordinalCompare))
     = Inr ([], map tab_id same_title_tabs) \<and>
   sort_js (JsFunction (compareByTitleAsc ordinalCompare)) mixed_title_tabs
     = Inr [mixed_title_tabs ! 1, mixed_title_tabs ! 0, mixed_title_tabs ! 2] \<and>
   precedes (mixed_title_tabs ! 0) (mixed_title_tabs ! 2)
     [mixed_title_tabs ! 1, mixed_title_tabs ! 0, mixed_title_tabs ! 2]"
proof -
  let ?desc = "JsFunction (compareByTitleDesc ordinalCompare)"
  let ?asc = "JsFunction (compareByTitleAsc ordinalCompare)"
  have sorted: "sort_js ?desc same_title_tabs = Inr same_title_tabs" by code_simp
  have front: "precedes (same_title_tabs ! 0) (same_title_tabs ! 1) same_title_tabs"
    by code_simp
  have equal: "sortCompare ?desc (same_title_tabs ! 0) (same_title_tabs ! 1) = Inr 0"
    by code_simp
  have all: "list_all (\<lambda>x. list_all (\<lambda>y. sortCompare ?desc x y = Inr 0) same_title_tabs)
               same_title_tabs"
    by code_simp
  have script: "lcs_script (map tab_id same_title_tabs) (map tab_id same_title_tabs)
                  (lcs_diff (map tab_id same_title_tabs) (map tab_id same_title_tabs))"
    by code_simp
  from equal_tabs_keep_their_order [where a = "same_title_tabs ! 0"
      and b = "same_title_tabs ! 1" and differ = lcs_diff, OF sorted] front equal all script
  have none: "sortTabsInternal lcs_diff same_title_tabs ?desc
                = Inr ([], map tab_id same_title_tabs)"
    by simp
  have order: "sort_js ?asc mixed_title_tabs
                 = Inr [mixed_title_tabs ! 1, mixed_title_tabs ! 0, mixed_title_tabs ! 2]"
    by code_simp
  have front': "precedes (mixed_title_tabs ! 0) (mixed_title_tabs ! 2) mixed_title_tabs"
    by code_simp
  have equal': "sortCompare ?asc (mixed_title_tabs ! 0) (mixed_title_tabs ! 2) = Inr 0"
    by code_simp
  have stable: "precedes (mixed_title_tabs ! 0) (mixed_title_tabs ! 2)
                  [mixed_title_tabs ! 1, mixed_title_tabs ! 0, mixed_title_tabs ! 2]"
    using equal_tabs_keep_their_order [where a = "mixed_title_tabs ! 0"
        and b = "mixed_title_tabs ! 2" and differ = lcs_diff, OF order] front' equal'
    by simp
  from sorted front equal all script none order stable show ?thesis
    by (intro conjI)
qed

section \<open>Comparison functions that read the URL\<close>

lemma url_comparators_raise:
  assumes "hostname (tab_url t) = None"
    and "cmp \<in> {compareByUrlAsc hostname lc, compareByUrlDesc hostname lc,
                 compareByDomainAsc hostname lc, compareByDomainDesc hostname lc}"
  shows "cmp t y = Inl TypeError" "cmp y t = Inl TypeError"
  using assms
  by (auto simp: compareByUrlAsc_def compareByUrlDesc_def compareByDomainAsc_def
        compareByDomainDesc_def split: option.splits)

text \<open>
  C6, as amended. In a partition of at least two tabs, one of which has a URL that does
  not parse, each of the four comparison functions by URL and by domain raises on every
  call with that tab, and \<open>sortTabsInternal\<close> leaves with the exception of the sort,
  before it asks for any move.
\<close>

theorem malformed_url_aborts_pass:
  assumes "t \<in> set tabs" "hostname (tab_url t) = None" "2 \<le> length tabs"
    and "cmp \<in> {compareByUrlAsc hostname lc, compareByUrlDesc hostname lc,
                 compareByDomainAsc hostname lc, compareByDomainDesc hostname lc}"
  shows "(\<forall>y. cmp t y = Inl TypeError \<and> cmp y t = Inl TypeError) \<and>
         sortTabsInternal differ tabs (JsFunction cmp) = Inl TypeError"
proof -
  have r: "cmp t y = Inl TypeError" "cmp y t = Inl TypeError" for y
    using assms(2,4) by (rule url_comparators_raise)+
  from assms(3) have ne: "tabs \<noteq> []" by auto
  have "sort_with cmp tabs = Inl TypeError"
    using assms(1,3) r by (rule sort_with_raises)
  with ne r show ?thesis
    by (simp add: sortTabsInternal_def sort_js_def sortCompare_def)
qed

theorem malformed_url_aborts_pass_witness:
  "unparseable_tab \<in> set [com_tab, unparseable_tab] \<and>
   simple_hostname (tab_url unparseable_tab) = None \<and>
   2 \<le> length [com_tab, unparseable_tab] \<and>
   sortTabsInternal lcs_diff [com_tab, unparseable_tab]
     (JsFunction (compareByDomainAsc simple_hostname ordinalCompare)) = Inl TypeError"
proof -
  have member: "unparseable_tab \<in> set [com_tab, unparseable_tab]" by simp
  have bad: "simple_hostname (tab_url unparseable_tab) = None" by code_simp
  have two: "2 \<le> length [com_tab, unparseable_tab]" by simp
  have cmp: "compareByDomainAsc simple_hostname ordinalCompare \<in>
               {compareByUrlAsc simple_hostname ordinalCompare,
                compareByUrlDesc simple_hostname ordinalCompare,
                compareByDomainAsc simple_hostname ordinalCompare,
                compareByDomainDesc simple_hostname ordinalCompare}"
    by simp
  from malformed_url_aborts_pass [where differ = lcs_diff, OF member bad two cmp]
    member bad two
  show ?thesis by (intro conjI) simp_all
qed

text \<open>
  C6, as it was stated, fails for a partition of one tab: the sort never calls the
  comparison function, so nothing raises and the run ends without a move.
\<close>

theorem single_malformed_tab_counterexample:
  "simple_hostname (tab_url unparseable_tab) = None \<and>
   sortTabsInternal lcs_diff [unparseable_tab]
     (JsFunction (compareByUrlAsc simple_hostname ordinalCompare)) = Inr ([], [7])"
  by code_simp

section \<open>The domain of a host name\<close>

lemma split_str_pieces: "split_str sep s \<noteq> []"
  by (induction s) (auto split: list.splits)

lemma split_str_append:
  "sep \<notin> set l \<Longrightarrow>
     split_str sep (l @ s) = (case split_str sep s of [] \<Rightarrow> [l] | w # ws \<Rightarrow> (l @ w) # ws)"
proof (induction l)
  case Nil
  then show ?case
    using split_str_pieces [of sep s] by (cases "split_str sep s") simp_all
next
  case (Cons c l)
  then show ?case
    using split_str_pieces [of sep s] by (cases "split_str sep s") auto
qed

lemma split_str_label: "sep \<notin> set l \<Longrightarrow> split_str sep l = [l]"
  using split_str_append [of sep l "[]"] by simp

lemma split_str_label_sep:
  "sep \<notin> set l \<Longrightarrow> split_str sep (l @ sep # s) = l # split_str sep s"
  using split_str_append [of sep l "sep # s"] by simp

lemma split_join:
  "labels \<noteq> [] \<Longrightarrow> \<forall>l \<in> set labels. sep \<notin> set l
     \<Longrightarrow> split_str sep (join_str [sep] labels) = labels"
proof (induction "[sep]" labels rule: join_str.induct)
  case 1
  then show ?case by simp
next
  case (2 x)
  then show ?case by (simp add: split_str_label)
next
  case (3 x y ys)
  then show ?case by (simp add: split_str_label_sep)
qed

lemma slice_js_last_two: "slice_js (-2) xs = last_two_labels xs"
proof -
  have "nat (max (int (length xs) - 2) 0) = length xs - 2" by simp
  then show ?thesis by (simp add: slice_js_def last_two_labels_def Let_def)
qed

lemma domainOf_labels:
  assumes "labels \<noteq> []" "\<forall>l \<in> set labels. CHR ''.'' \<notin> set l"
  shows "domainOf (join_str ''.'' labels) = join_str ''.'' (last_two_labels labels)"
  using split_join [OF assms] by (simp add: domainOf_def slice_js_last_two)

text \<open>
  C9, as amended. For two tabs whose URLs parse, the comparison functions by domain
  compare the last two labels of the host names, joined by a dot, and nothing else of
  them (a host name of one label is compared whole); so \<open>a.example.co.uk\<close> is compared
  as \<open>co.uk\<close> and \<open>b.example.com\<close> as \<open>example.com\<close>.
\<close>

theorem domain_key_last_two_labels:
  assumes "hostname (tab_url a) = Some (join_str ''.'' la)"
    and "hostname (tab_url b) = Some (join_str ''.'' lb)"
    and "la \<noteq> []" "\<forall>l \<in> set la. CHR ''.'' \<notin> set l"
    and "lb \<noteq> []" "\<forall>l \<in> set lb. CHR ''.'' \<notin> set l"
  shows "compareByDomainAsc hostname lc a b =
           Inr (lc (join_str ''.'' (last_two_labels la)) (join_str ''.'' (last_two_labels lb))) \<and>
         compareByDomainDesc hostname lc a b =
           Inr (lc (join_str ''.'' (last_two_labels lb)) (join_str ''.'' (last_two_labels la))) \<and>
         domainOf ''a.example.co.uk'' = ''co.uk'' \<and>
         domainOf ''b.example.com'' = ''example.com''"
proof -
  have a: "domainOf (join_str ''.'' la) = join_str ''.'' (last_two_labels la)"
    using assms(3,4) by (rule domainOf_labels)
  have b: "domainOf (join_str ''.'' lb) = join_str ''.'' (last_two_labels lb)"
    using assms(5,6) by (rule domainOf_labels)
  have e1: "domainOf ''a.example.co.uk'' = ''co.uk''" by code_simp
  have e2: "domainOf ''b.example.com'' = ''example.com''" by code_simp
  from a b e1 e2 assms(1,2) show ?thesis
    by (simp add: compareByDomainAsc_def compareByDomainDesc_def)
qed

theorem domain_key_last_two_labels_witness:
  "simple_hostname (tab_url uk_tab) = Some ''a.example.co.uk'' \<and>
   simple_hostname (tab_url com_tab) = Some ''b.example.com'' \<and>
   compareByDomainAsc simple_hostname ordinalCompare uk_tab com_tab
     = Inr (ordinalCompare ''co.uk'' ''example.com'') \<and>
   compareByDomainDesc simple_hostname ordinalCompare uk_tab com_tab
     = Inr (ordinalCompare ''example.com'' ''co.uk'')"
proof -
  let ?la = "[''a'', ''example'', ''co'', ''uk'']"
  let ?lb = "[''b'', ''example'', ''com'']"
  have a: "simple_hostname (tab_url uk_tab) = Some (join_str ''.'' ?la)" by code_simp
  have b: "simple_hostname (tab_url com_tab) = Some (join_str ''.'' ?lb)" by code_simp
  have la: "?la \<noteq> []" "\<forall>l \<in> set ?la. CHR ''.'' \<notin> set l" by simp_all
  have lb: "?lb \<noteq> []" "\<forall>l \<in> set ?lb. CHR ''.'' \<notin> set l" by simp_all
  have ja: "join_str ''.'' ?la = ''a.example.co.uk''" by code_simp
  have jb: "join_str ''.'' ?lb = ''b.example.com''" by code_simp
  have ka: "join_str ''.'' (last_two_labels ?la) = ''co.uk''" by code_simp
  have kb: "join_str ''.'' (last_two_labels ?lb) = ''example.com''" by code_simp
  from domain_key_last_two_labels [where lc = ordinalCompare, OF a b la lb]
  have "compareByDomainAsc simple_hostname ordinalCompare uk_tab com_tab
          = Inr (ordinalCompare ''co.uk'' ''example.com'') \<and>
        compareByDomainDesc simple_hostname ordinalCompare uk_tab com_tab
          = Inr (ordinalCompare ''example.com'' ''co.uk'')"
    unfolding ka kb by simp
  with a b show ?thesis unfolding ja jb by simp
qed

text \<open>
  C9, as it was stated, gives \<open>com\<close> as what \<open>b.example.com\<close> is compared as; the
  last two labels of that host name are \<open>example.com\<close>.
\<close>

theorem domain_key_counterexample: "domainOf ''b.example.com'' \<noteq> ''com''"
  by code_simp

section \<open>Comparison functions that do not read the URL\<close>

text \<open>
  C10. The comparison functions by title return the same for two pairs of tabs with the
  same titles, and those by last access the same for two pairs with the same access
  times, whatever the other fields hold; and a run of \<open>sortTabsInternal\<close> with one of
  these four raises nothing.
\<close>

theorem title_and_access_ignore_url:
  "(tab_title a = tab_title a' \<and> tab_title b = tab_title b' \<longrightarrow>
      compareByTitleAsc lc a b = compareByTitleAsc lc a' b' \<and>
      compareByTitleDesc lc a b = compareByTitleDesc lc a' b') \<and>
   (tab_lastAccessed a = tab_lastAccessed a' \<and> tab_lastAccessed b = tab_lastAccessed b' \<longrightarrow>
      compareByLastAccessAsc a b = compareByLastAccessAsc a' b' \<and>
      compareByLastAccessDesc a b = compareByLastAccessDesc a' b') \<and>
   (cmp \<in> {compareByTitleAsc lc, compareByTitleDesc lc,
            compareByLastAccessAsc, compareByLastAccessDesc} \<longrightarrow>
      (\<exists>r. sortTabsInternal differ tabs (JsFunction cmp) = Inr r))"
proof (intro conjI impI)
  assume "cmp \<in> {compareByTitleAsc lc, compareByTitleDesc lc,
            compareByLastAccessAsc, compareByLastAccessDesc}"
  then have "\<exists>r. cmp x y = Inr r" for x y
    by (auto simp: compareByTitleAsc_def compareByTitleDesc_def
          compareByLastAccessAsc_def compareByLastAccessDesc_def)
  then obtain s where "sort_with cmp tabs = Inr s"
    using sort_with_total [of cmp tabs] by blast
  then show "\<exists>r. sortTabsInternal differ tabs (JsFunction cmp) = Inr r"
    by (simp add: sortTabsInternal_def sort_js_def sortCompare_def Let_def)
qed (simp_all add: compareByTitleAsc_def compareByTitleDesc_def
       compareByLastAccessAsc_def compareByLastAccessDesc_def)

theorem title_and_access_ignore_url_witness:
  "tab_title unparseable_tab = tab_title uk_tab \<and>
   tab_lastAccessed unparseable_tab = tab_lastAccessed uk_tab \<and>
   simple_hostname (tab_url unparseable_tab) = None \<and>
   compareByTitleAsc ordinalCompare unparseable_tab com_tab
     = compareByTitleAsc ordinalCompare uk_tab com_tab \<and>
   compareByLastAccessDesc unparseable_tab com_tab = compareByLastAccessDesc uk_tab com_tab \<and>
   (\<exists>r. sortTabsInternal lcs_diff [unparseable_tab, com_tab]
           (JsFunction (compareByTitleAsc ordinalCompare)) = Inr r)"
proof -
  have title: "tab_title unparseable_tab = tab_title uk_tab" by code_simp
  have access: "tab_lastAccessed unparseable_tab = tab_lastAccessed uk_tab" by code_simp
  have bad: "simple_hostname (tab_url unparseable_tab) = None" by code_simp
  have cmp: "compareByTitleAsc ordinalCompare \<in>
               {compareByTitleAsc ordinalCompare, compareByTitleDesc ordinalCompare,
                compareByLastAccessAsc, compareByLastAccessDesc}"
    by simp
  from title_and_access_ignore_url [where a = unparseable_tab and a' = uk_tab
      and b = com_tab and b' = com_tab and lc = ordinalCompare
      and cmp = "compareByTitleAsc ordinalCompare" and differ = lcs_diff
      and tabs = "[unparseable_tab, com_tab]"]
    title access bad cmp
  show ?thesis by simp
qed

section \<open>A key without a comparison function\<close>

lemma sortTabs_without_comparator:
  assumes "lcs_script (map tab_id (filter (\<lambda>t. \<not> tab_pinned t) tabs))
             (map tab_id (filter (\<lambda>t. \<not> tab_pinned t) tabs))
             (differ (map tab_id (filter (\<lambda>t. \<not> tab_pinned t) tabs))
                (map tab_id (filter (\<lambda>t. \<not> tab_pinned t) tabs)))"
    and "lcs_script (map tab_id (filter tab_pinned tabs)) (map tab_id (filter tab_pinned tabs))
             (differ (map tab_id (filter tab_pinned tabs)) (map tab_id (filter tab_pinned tabs)))"
  shows "sortTabs differ JsUndefined st tabs = \<lparr>events = [TabsQuery], raised = None\<rparr>"
proof -
  have n: "sortTabsInternal differ (filter (\<lambda>t. \<not> tab_pinned t) tabs) JsUndefined
             = Inr ([], map tab_id (filter (\<lambda>t. \<not> tab_pinned t) tabs))"
    using sort_js_default refl assms(1) by (rule sortTabsInternal_same_order)
  have p: "sortTabsInternal differ (filter tab_pinned tabs) JsUndefined
             = Inr ([], map tab_id (filter tab_pinned tabs))"
    using sort_js_default refl assms(2) by (rule sortTabsInternal_same_order)
  from n p show ?thesis by (simp add: sortTabs_def)
qed

text \<open>
  A key that is not one of the eight of the table is looked up in the prototype. In
  \<open>Object.prototype\<close> there is nothing under \<open>sort-by-size\<close> nor under \<open>undefined\<close>,
  but there is under \<open>toString\<close> or \<open>__proto__\<close>.
\<close>

lemma menuIdToComparator_unknown:
  "k \<notin> {''sort-by-url-asc'', ''sort-by-url-desc'', ''sort-by-domain-asc'',
         ''sort-by-domain-desc'', ''sort-by-last-access-asc'', ''sort-by-last-access-desc'',
         ''sort-by-title-asc'', ''sort-by-title-desc''}
     \<Longrightarrow> menuIdToComparator hostname lc proto k = proto k"
  by (simp add: menuIdToComparator_def)

lemma menuIdToComparator_sort_by_size:
  "menuIdToComparator hostname lc object_prototype ''sort-by-size'' = JsUndefined"
  by (simp add: menuIdToComparator_def object_prototype_def)

lemma menuIdToComparator_unset:
  "menuIdToComparator hostname lc object_prototype ''undefined'' = JsUndefined"
  by (simp add: menuIdToComparator_def object_prototype_def)

lemma menuIdToComparator_inherited:
  "menuIdToComparator hostname lc object_prototype ''toString'' = JsFunction (\<lambda>a b. Inr 0)"
  "menuIdToComparator hostname lc object_prototype ''__proto__'' = JsObject"
  by (simp_all add: menuIdToComparator_def object_prototype_def)

text \<open>
  C5. The claim is that a key without a comparison function starts no run and that the
  caller is told. \<open>sortTabsComparatorName\<close> does not look at what the table returns: it
  hands \<open>undefined\<close> to \<open>sortTabs\<close>, which queries the tabs and sorts them in the
  default order of the language. All tab records convert to the same string, so the
  order stays, no move is asked for, and the run ends as a success without any message.
  Here the key is \<open>sort-by-size\<close> and the window holds the six tabs of C1.
\<close>

theorem unknown_key_runs_pass:
  "menuIdToComparator hostname lc object_prototype ''sort-by-size'' = JsUndefined \<and>
   sortTabsComparatorName hostname lc object_prototype lcs_diff ''sort-by-size'' st access_tabs
     = \<lparr>events = [TabsQuery], raised = None\<rparr>"
proof -
  have normal: "filter (\<lambda>t. \<not> tab_pinned t) access_tabs = access_tabs" by code_simp
  have pinned: "filter tab_pinned access_tabs = []" by code_simp
  have s1: "lcs_script (map tab_id access_tabs) (map tab_id access_tabs)
              (lcs_diff (map tab_id access_tabs) (map tab_id access_tabs))"
    by (rule lcs_diff_lcs_script)
  have s2: "lcs_script [] [] (lcs_diff [] [])" by (rule lcs_diff_lcs_script)
  have "sortTabs lcs_diff JsUndefined st access_tabs = \<lparr>events = [TabsQuery], raised = None\<rparr>"
    by (rule sortTabs_without_comparator) (simp_all add: normal pinned s1 s2)
  with menuIdToComparator_sort_by_size [of hostname lc] show ?thesis
    by (simp add: sortTabsComparatorName_def)
qed

section \<open>The handler of the automatic sort\<close>

text \<open>
  When the table, read through the prototype, holds nothing under the stored key, the
  handler never calls \<open>sortTabs\<close>: it reads the settings and calls
  \<open>console.warning\<close>. On a console that has such a method this is the message, and
  nothing is raised.
\<close>

lemma auto_handler_skips_sort:
  assumes "menuIdToComparator hostname lc proto (stored_key st) = JsUndefined"
  shows "TabsQuery \<notin> set (events (settingsSortAutoHandler console hostname lc proto differ
                                    st tabs))"
    and "moves_of (events (settingsSortAutoHandler console hostname lc proto differ st tabs))
           = []"
    and "''warning'' \<in> set console \<Longrightarrow>
           \<exists>msg. settingsSortAutoHandler console hostname lc proto differ st tabs
                   = \<lparr>events = [StorageGet, ConsoleCall ''warning'' msg], raised = None\<rparr>"
  using assms
  by (simp_all add: settingsSortAutoHandler_def console_call_def)

text \<open>
  C7. The claim is that, without a comparison function for the stored key, the handler
  runs no sort, gives a message and raises nothing. It runs no sort. For the message it
  calls \<open>console.warning\<close>; the console has \<open>warn\<close> and no \<open>warning\<close>, so the call
  raises a \<open>TypeError\<close> in the callback, no message is given, and the promise of the
  handler is rejected. This is so with no stored key and with a stored key that is not
  in the table.
\<close>

theorem missing_comparator_warning_raises:
  "settingsSortAutoHandler standard_console hostname lc object_prototype differ
     \<lparr>last_comparator = None, settings_sort_auto = True, settings_sort_pinned = pin\<rparr> tabs
     = \<lparr>events = [StorageGet], raised = Some TypeError\<rparr> \<and>
   settingsSortAutoHandler standard_console hostname lc object_prototype differ
     \<lparr>last_comparator = Some ''sort-by-size'', settings_sort_auto = True,
      settings_sort_pinned = pin\<rparr> tabs
     = \<lparr>events = [StorageGet], raised = Some TypeError\<rparr>"
proof -
  have none: "console_call standard_console ''warning'' msg = Inl TypeError" for msg
    by (simp add: console_call_def standard_console_def)
  show ?thesis
    by (simp add: settingsSortAutoHandler_def stored_key_def none
          menuIdToComparator_sort_by_size menuIdToComparator_unset)
qed

end
